theory Spec2Isabelle
  imports Complex_Main "HOL-Library.Word" "HOL-Library.Signed_Division"
begin

unbundle bit_operations_syntax

section \<open>The uuid value type\<close>

text \<open>
  \<^verbatim>\<open>pg_uuid_t\<close> is a struct holding \<^verbatim>\<open>unsigned char data[UUID_LEN]\<close>.  A value is
  modelled by the list of its bytes; every uuid the functions below build or receive has
  \<open>UUID_LEN\<close> of them.
\<close>

type_synonym pg_uuid_t = "8 word list"

text \<open>
  Modelled from the spec: the macro \<^verbatim>\<open>UUID_LEN\<close> is declared in \<^verbatim>\<open>utils/uuid.h\<close>, which is
  not among the sources; the value type is "exactly 16 bytes".
\<close>

definition UUID_LEN :: nat where
  "UUID_LEN = 16"

text \<open>
  The two ways \<^verbatim>\<open>uuid.c\<close> fails: the soft error of \<^verbatim>\<open>string_to_uuid\<close>
  (\<^verbatim>\<open>ERRCODE_INVALID_TEXT_REPRESENTATION\<close>, carrying the source text) and the hard error
  raised when \<^verbatim>\<open>pg_strong_random\<close> fails (\<^verbatim>\<open>ERRCODE_INTERNAL_ERROR\<close>).
\<close>

datatype error =
    INVALID_TEXT_REPRESENTATION string
  | INTERNAL_ERROR

section \<open>Ordering\<close>

text \<open>
  \<^verbatim>\<open>memcmp\<close> compares the first \<open>n\<close> bytes as unsigned chars.  C fixes only the sign of
  its result; the model returns \<open>-1\<close>, \<open>0\<close> or \<open>1\<close>.  Reading past the end of a buffer is
  undefined in C and does not happen for uuids; the model stops there with \<open>0\<close>.
\<close>

fun memcmp :: "8 word list \<Rightarrow> 8 word list \<Rightarrow> nat \<Rightarrow> int" where
  "memcmp (x # xs) (y # ys) (Suc n) =
     (if x < y then - 1 else if y < x then 1 else memcmp xs ys n)"
| "memcmp _ _ _ = 0"

definition uuid_internal_cmp :: "pg_uuid_t \<Rightarrow> pg_uuid_t \<Rightarrow> int" where
  "uuid_internal_cmp arg1 arg2 = memcmp arg1 arg2 UUID_LEN"

definition uuid_lt :: "pg_uuid_t \<Rightarrow> pg_uuid_t \<Rightarrow> bool" where
  "uuid_lt arg1 arg2 \<longleftrightarrow> uuid_internal_cmp arg1 arg2 < 0"

definition uuid_le :: "pg_uuid_t \<Rightarrow> pg_uuid_t \<Rightarrow> bool" where
  "uuid_le arg1 arg2 \<longleftrightarrow> uuid_internal_cmp arg1 arg2 \<le> 0"

section \<open>The version 7 generator\<close>

text \<open>
  The generator's state is the two file-level statics.  C initialises both to zero.
\<close>

record uuidv7_state =
  sequence_counter :: "32 word"
  previous_timestamp :: "64 word"

definition initial_state :: uuidv7_state where
  "initial_state = \<lparr>sequence_counter = 0, previous_timestamp = 0\<rparr>"

text \<open>
  What \<^verbatim>\<open>gettimeofday\<close> stored: the signed values of \<^verbatim>\<open>tv_sec\<close> and \<^verbatim>\<open>tv_usec\<close>.
\<close>

record timeval =
  tv_sec :: int
  tv_usec :: int

text \<open>
  \<^verbatim>\<open>tms = ((uint64_t) tp.tv_sec) * 1000 + (tp.tv_usec) / 1000\<close>: the division is the signed,
  truncating one of C; the cast and the sum are modulo \<open>2 ^ 64\<close>.
\<close>

definition clock_tms :: "timeval \<Rightarrow> 64 word" where
  "clock_tms tp = word_of_int (tv_sec tp) * 1000 + word_of_int (tv_usec tp sdiv 1000)"

text \<open>
  One outcome of \<^verbatim>\<open>pg_strong_random(buf, len)\<close>: \<open>None\<close> when it returns false, otherwise
  the bytes it stores, byte \<open>i\<close> of the outcome going to \<open>buf[i]\<close> for \<open>i < len\<close>.
\<close>

type_synonym random_outcome = "(nat \<Rightarrow> 8 word) option"

definition fill_random :: "8 word list \<Rightarrow> nat \<Rightarrow> nat \<Rightarrow> (nat \<Rightarrow> 8 word) \<Rightarrow> 8 word list" where
  "fill_random buf off len r = fold (\<lambda>i b. b[off + i := r i]) [0..<len] buf"

text \<open>
  The branch on \<^verbatim>\<open>increment_counter\<close>: the new statics and the value of \<^verbatim>\<open>tms\<close> after it.
\<close>

definition uuidv7_advance :: "uuidv7_state \<Rightarrow> 64 word \<Rightarrow> uuidv7_state \<times> 64 word" where
  "uuidv7_advance st tms =
     (let increment_counter = (tms \<le> previous_timestamp st) in
      if increment_counter then
        (let st1 = st\<lparr>sequence_counter := sequence_counter st + 1\<rparr>;
             st2 = (if sequence_counter st1 > 0x3ffff
                    then st1\<lparr>sequence_counter := 0,
                             previous_timestamp := previous_timestamp st1 + 1\<rparr>
                    else st1)
         in (st2, previous_timestamp st2))
      else
        (st\<lparr>sequence_counter := 0, previous_timestamp := tms\<rparr>, tms))"

text \<open>
  The bytes written before the random fill: the time part and the three counter bytes.
  The buffer comes from \<^verbatim>\<open>palloc\<close>; all sixteen bytes are stored before the function
  returns, so its initial contents do not matter and are taken as zero.
\<close>

definition uuidv7_layout :: "64 word \<Rightarrow> 32 word \<Rightarrow> pg_uuid_t" where
  "uuidv7_layout tms counter =
     (replicate UUID_LEN 0)
       [0 := ucast (drop_bit 40 tms),
        1 := ucast (drop_bit 32 tms),
        2 := ucast (drop_bit 24 tms),
        3 := ucast (drop_bit 16 tms),
        4 := ucast (drop_bit 8 tms),
        5 := ucast tms,
        6 := ucast (drop_bit 14 counter),
        7 := ucast (drop_bit 6 counter),
        8 := ucast counter]"

definition uuidv7 ::
  "uuidv7_state \<Rightarrow> timeval \<Rightarrow> random_outcome \<Rightarrow> (error + pg_uuid_t) \<times> uuidv7_state" where
  "uuidv7 st tp rnd =
     (let (st', tms) = uuidv7_advance st (clock_tms tp);
          uuid = uuidv7_layout tms (sequence_counter st')
      in case rnd of
           None \<Rightarrow> (Inl INTERNAL_ERROR, st')
         | Some r \<Rightarrow>
             (let uuid = fill_random uuid 8 (UUID_LEN - 8) r;
                  uuid = uuid[6 := (uuid ! 6 AND 0x0f) OR 0x70];
                  uuid = uuid[8 := (uuid ! 8 AND 0x3f) OR 0x80]
              in (Inr uuid, st')))"

text \<open>
  Successive calls in one backend: each call starts from the statics the previous one
  left, also when that call raised its error (the statics are updated before the random
  source is read).
\<close>

fun uuidv7_calls ::
  "uuidv7_state \<Rightarrow> (timeval \<times> random_outcome) list
     \<Rightarrow> (error + pg_uuid_t) list \<times> uuidv7_state" where
  "uuidv7_calls st [] = ([], st)"
| "uuidv7_calls st ((tp, rnd) # cs) =
     (let (v, st') = uuidv7 st tp rnd;
          (vs, st'') = uuidv7_calls st' cs
      in (v # vs, st''))"

text \<open>
  The lexicographic order on the pair \<open>(previous_timestamp, sequence_counter)\<close>, both read
  as unsigned integers.
\<close>

definition state_le :: "uuidv7_state \<Rightarrow> uuidv7_state \<Rightarrow> bool" where
  "state_le s t \<longleftrightarrow>
     previous_timestamp s < previous_timestamp t \<or>
     (previous_timestamp s = previous_timestamp t \<and> sequence_counter s \<le> sequence_counter t)"

text \<open>
  The timestamp the call stores in bytes 0 to 5: the value of \<^verbatim>\<open>tms\<close> after the branch.
\<close>

definition uuidv7_effective_tms :: "uuidv7_state \<Rightarrow> timeval \<Rightarrow> 64 word" where
  "uuidv7_effective_tms st tp = snd (uuidv7_advance st (clock_tms tp))"

section \<open>Extracting the timestamp\<close>

text \<open>
  The epoch macros \<^verbatim>\<open>uuid_extract_timestamp\<close> uses are declared in headers that are not
  among the sources, so they are parameters of the model: a record holding the value of
  each macro.
\<close>

record timestamp_h =
  POSTGRES_EPOCH_JDATE :: int
  UNIX_EPOCH_JDATE :: int
  GREGORIAN_EPOCH_JDATE :: int
  SECS_PER_DAY :: int
  USECS_PER_SEC :: int

text \<open>The values PostgreSQL gives these macros; used for concrete evaluations.\<close>

definition pg_timestamp_h :: timestamp_h where
  "pg_timestamp_h = \<lparr>POSTGRES_EPOCH_JDATE = 2451545, UNIX_EPOCH_JDATE = 2440588,
     GREGORIAN_EPOCH_JDATE = 2299161, SECS_PER_DAY = 86400, USECS_PER_SEC = 1000000\<rparr>"

text \<open>
  \<^verbatim>\<open>(POSTGRES_EPOCH_JDATE - UNIX_EPOCH_JDATE) * SECS_PER_DAY * USECS_PER_SEC\<close> and its
  Gregorian counterpart, as integers; the code uses them as 64-bit values.
\<close>

definition unix_epoch_shift :: "timestamp_h \<Rightarrow> int" where
  "unix_epoch_shift k =
     (POSTGRES_EPOCH_JDATE k - UNIX_EPOCH_JDATE k) * SECS_PER_DAY k * USECS_PER_SEC k"

definition gregorian_epoch_shift :: "timestamp_h \<Rightarrow> int" where
  "gregorian_epoch_shift k =
     (POSTGRES_EPOCH_JDATE k - GREGORIAN_EPOCH_JDATE k) * SECS_PER_DAY k * USECS_PER_SEC k"

text \<open>
  \<^verbatim>\<open>uuid_extract_timestamp\<close>: \<open>None\<close> is \<^verbatim>\<open>PG_RETURN_NULL()\<close>; a timestamp is the 64-bit
  \<^verbatim>\<open>TimestampTz\<close>, read as signed with \<open>sint\<close>.  \<^verbatim>\<open>tms\<close> is a \<^verbatim>\<open>uint64_t\<close>.
\<close>

definition uuid_extract_timestamp :: "timestamp_h \<Rightarrow> pg_uuid_t \<Rightarrow> 64 word option" where
  "uuid_extract_timestamp k uuid =
     (if uuid ! 8 AND 0xc0 \<noteq> 0x80 then None
      else if uuid ! 6 AND 0xf0 = 0x70 then
        (let tms = ucast (uuid ! 5);
             tms = tms + push_bit 8 (ucast (uuid ! 4));
             tms = tms + push_bit 16 (ucast (uuid ! 3));
             tms = tms + push_bit 24 (ucast (uuid ! 2));
             tms = tms + push_bit 32 (ucast (uuid ! 1));
             tms = tms + push_bit 40 (ucast (uuid ! 0));
             ts = tms * 1000 - word_of_int (unix_epoch_shift k)
         in Some ts)
      else if uuid ! 6 AND 0xf0 = 0x10 then
        (let tms = push_bit 24 (ucast (uuid ! 0));
             tms = tms + push_bit 16 (ucast (uuid ! 1));
             tms = tms + push_bit 8 (ucast (uuid ! 2));
             tms = tms + ucast (uuid ! 3);
             tms = tms + push_bit 40 (ucast (uuid ! 4));
             tms = tms + push_bit 32 (ucast (uuid ! 5));
             tms = tms + push_bit 56 (ucast (uuid ! 6) AND 0xf);
             tms = tms + push_bit 48 (ucast (uuid ! 7));
             ts = tms div 10 - word_of_int (gregorian_epoch_shift k)
         in Some ts)
      else if uuid ! 6 AND 0xf0 = 0x60 then
        (let tms = push_bit 52 (ucast (uuid ! 0));
             tms = tms + push_bit 44 (ucast (uuid ! 1));
             tms = tms + push_bit 36 (ucast (uuid ! 2));
             tms = tms + push_bit 28 (ucast (uuid ! 3));
             tms = tms + push_bit 20 (ucast (uuid ! 4));
             tms = tms + push_bit 12 (ucast (uuid ! 5));
             tms = tms + push_bit 8 (ucast (uuid ! 6) AND 0xf);
             tms = tms + ucast (uuid ! 7);
             ts = tms div 10 - word_of_int (gregorian_epoch_shift k)
         in Some ts)
      else None)"

text \<open>The big-endian 48-bit integer held in bytes 0 to 5 of a value.\<close>

definition be48 :: "pg_uuid_t \<Rightarrow> nat" where
  "be48 uuid = unat (uuid ! 0) * 2 ^ 40 + unat (uuid ! 1) * 2 ^ 32 + unat (uuid ! 2) * 2 ^ 24 +
     unat (uuid ! 3) * 2 ^ 16 + unat (uuid ! 4) * 2 ^ 8 + unat (uuid ! 5)"

section \<open>Text input and output\<close>

text \<open>
  A C string is modelled by the list of its characters before the terminating NUL.
  \<open>cstr_at s k\<close> is \<^verbatim>\<open>s[k]\<close>: the character at \<open>k\<close>, or the NUL when \<open>k\<close> is the
  length.  Advancing a pointer by \<open>n\<close> is \<open>drop n\<close>.
\<close>

definition NUL :: char where
  "NUL = CHR 0x00"

definition cstr_at :: "string \<Rightarrow> nat \<Rightarrow> char" where
  "cstr_at s k = (if k < length s then s ! k else NUL)"

text \<open>
  \<^verbatim>\<open>isxdigit\<close> and \<^verbatim>\<open>strtoul\<close> come from the C library.  \<open>isxdigit\<close> holds of the
  digits and of the letters a to f in either case.  \<^verbatim>\<open>strtoul(str_buf, NULL, 16)\<close> is
  only called on a buffer holding two characters that passed \<^verbatim>\<open>isxdigit\<close>, where it
  returns the value of the two-digit hexadecimal number.
\<close>

definition isxdigit :: "char \<Rightarrow> bool" where
  "isxdigit c \<longleftrightarrow> c \<in> set ''0123456789abcdefABCDEF''"

definition xdigit_value :: "char \<Rightarrow> nat" where
  "xdigit_value c =
     (let n = of_char c in
      if of_char CHR ''0'' \<le> n \<and> n \<le> of_char CHR ''9'' then n - of_char CHR ''0''
      else if of_char CHR ''a'' \<le> n \<and> n \<le> of_char CHR ''f'' then n - of_char CHR ''a'' + 10
      else n - of_char CHR ''A'' + 10)"

definition strtoul_16 :: "string \<Rightarrow> nat" where
  "strtoul_16 str_buf = foldl (\<lambda>acc c. 16 * acc + xdigit_value c) 0 str_buf"

definition hex_chars :: string where
  "hex_chars = ''0123456789abcdef''"

text \<open>
  \<^verbatim>\<open>uuid_out\<close>: the loop appends to the buffer \<open>p\<close>; the final NUL is the end of the
  list.
\<close>

function uuid_out_loop :: "pg_uuid_t \<Rightarrow> nat \<Rightarrow> string \<Rightarrow> string" where
  "uuid_out_loop uuid i p =
     (if i < UUID_LEN then
        (let p = (if i = 4 \<or> i = 6 \<or> i = 8 \<or> i = 10 then p @ ''-'' else p);
             hi = drop_bit 4 (uuid ! i);
             lo = uuid ! i AND 0x0F;
             p = p @ [hex_chars ! unat hi];
             p = p @ [hex_chars ! unat lo]
         in uuid_out_loop uuid (i + 1) p)
      else p)"
  by pat_completeness auto
termination
  by (relation "measure (\<lambda>(uuid, i, p). UUID_LEN - i)") auto

definition uuid_out :: "pg_uuid_t \<Rightarrow> string" where
  "uuid_out uuid = uuid_out_loop uuid 0 []"

text \<open>
  \<^verbatim>\<open>string_to_uuid\<close>.  The loop returns \<open>None\<close> where the code jumps to
  \<^verbatim>\<open>syntax_error\<close>, otherwise the bytes stored and the rest of the text.
\<close>

function string_to_uuid_loop ::
  "nat \<Rightarrow> string \<Rightarrow> pg_uuid_t \<Rightarrow> (pg_uuid_t \<times> string) option" where
  "string_to_uuid_loop i src uuid =
     (if i < UUID_LEN then
        (if cstr_at src 0 = NUL \<or> cstr_at src 1 = NUL then None
         else
           (let str_buf = take 2 src in
            if \<not> isxdigit (str_buf ! 0) \<or> \<not> isxdigit (str_buf ! 1) then None
            else
              (let uuid = uuid[i := of_nat (strtoul_16 str_buf)];
                   src = drop 2 src;
                   src = (if cstr_at src 0 = CHR ''-'' \<and> i mod 2 = 1 \<and> i < UUID_LEN - 1
                          then drop 1 src else src)
               in string_to_uuid_loop (i + 1) src uuid)))
      else Some (uuid, src))"
  by pat_completeness auto
termination
  by (relation "measure (\<lambda>(i, src, uuid). UUID_LEN - i)") auto

definition string_to_uuid :: "string \<Rightarrow> error + pg_uuid_t" where
  "string_to_uuid source =
     (let (src, braces) =
            (if cstr_at source 0 = CHR ''{'' then (drop 1 source, True) else (source, False))
      in case string_to_uuid_loop 0 src (replicate UUID_LEN 0) of
           None \<Rightarrow> Inl (INVALID_TEXT_REPRESENTATION source)
         | Some (uuid, src) \<Rightarrow>
             if braces \<and> cstr_at src 0 \<noteq> CHR ''}'' then Inl (INVALID_TEXT_REPRESENTATION source)
             else
               (let src = (if braces then drop 1 src else src) in
                if cstr_at src 0 \<noteq> NUL then Inl (INVALID_TEXT_REPRESENTATION source)
                else Inr uuid))"

declare uuid_out_loop.simps [simp del] string_to_uuid_loop.simps [simp del]

text \<open>
  The canonical text form: 36 characters, lowercase hexadecimal digits in groups of 8, 4,
  4, 4 and 12 with a hyphen between groups (and so no braces).  An \<open>x\<close> of the pattern
  stands for one character of \<open>hex_chars\<close>.
\<close>

definition canonical_text :: "string \<Rightarrow> bool" where
  "canonical_text s \<longleftrightarrow>
     list_all2 (\<lambda>c p. if p = CHR ''-'' then c = CHR ''-'' else c \<in> set hex_chars)
       s ''xxxxxxxx-xxxx-xxxx-xxxx-xxxxxxxxxxxx''"

text \<open>The character \<^verbatim>\<open>hex_chars[x]\<close>.\<close>

definition hexc :: "8 word \<Rightarrow> char" where
  "hexc x = hex_chars ! unat x"

text \<open>
  The shape of the text the loop of \<^verbatim>\<open>string_to_uuid\<close> consumes when \<open>n\<close> bytes are
  still to be read: two hexadecimal digits for each byte, and after a byte that leaves
  an even, positive number of bytes to read (bytes 1, 3, ..., 13 of the sixteen) possibly
  one hyphen.
\<close>

fun hex_groups :: "nat \<Rightarrow> string \<Rightarrow> bool" where
  "hex_groups 0 s = (s = [])"
| "hex_groups (Suc n) (c1 # c2 # r) =
     (isxdigit c1 \<and> isxdigit c2 \<and>
      (hex_groups n r \<or>
       (even n \<and> 0 < n \<and>
        (case r of c # r' \<Rightarrow> c = CHR ''-'' \<and> hex_groups n r' | [] \<Rightarrow> False))))"
| "hex_groups (Suc n) _ = False"

section \<open>Abbreviated keys for sorting\<close>

text \<open>
  What the sort support code takes from outside \<^verbatim>\<open>uuid.c\<close> is a parameter of the model:
  the byte order of the host (\<^verbatim>\<open>WORDS_BIGENDIAN\<close>), the HyperLogLog estimator of
  \<^verbatim>\<open>lib/hyperloglog.h\<close> over its state type \<open>'h\<close>, \<^verbatim>\<open>hash_uint32\<close>, and the arithmetic
  of the C type \<^verbatim>\<open>double\<close> over a type \<open>'d\<close> of its values: the conversion of a decimal
  literal and of an \<^verbatim>\<open>int64\<close>, addition, division and the comparison \<open><\<close>
  (\<open>x > y\<close> is \<open>y < x\<close>).
\<close>

record ('h, 'd) platform =
  WORDS_BIGENDIAN :: bool
  initHyperLogLog :: "nat \<Rightarrow> 'h"
  addHyperLogLog :: "'h \<Rightarrow> 32 word \<Rightarrow> 'h"
  estimateHyperLogLog :: "'h \<Rightarrow> 'd"
  hash_uint32 :: "32 word \<Rightarrow> 32 word"
  double_literal :: "rat \<Rightarrow> 'd"
  double_of_int64 :: "int \<Rightarrow> 'd"
  double_add :: "'d \<Rightarrow> 'd \<Rightarrow> 'd"
  double_div :: "'d \<Rightarrow> 'd \<Rightarrow> 'd"
  double_less :: "'d \<Rightarrow> 'd \<Rightarrow> bool"

text \<open>
  \<^verbatim>\<open>uuid_sortsupport_state\<close>.  \<^verbatim>\<open>input_count\<close> is an \<^verbatim>\<open>int64\<close> that only counts up
  from zero; it is modelled without a bound.
\<close>

record 'h uuid_sortsupport_state =
  input_count :: int
  estimating :: bool
  abbr_card :: 'h

text \<open>The state \<^verbatim>\<open>uuid_sortsupport\<close> installs when abbreviation is requested.\<close>

definition uuid_sortsupport :: "('h, 'd) platform \<Rightarrow> 'h uuid_sortsupport_state" where
  "uuid_sortsupport pf =
     \<lparr>input_count = 0, estimating = True, abbr_card = initHyperLogLog pf 10\<rparr>"

text \<open>
  Modelled from the spec: \<^verbatim>\<open>Datum\<close> and \<^verbatim>\<open>SIZEOF_DATUM\<close> are declared outside the
  sources; the native word width is taken as 8 bytes, so a \<^verbatim>\<open>Datum\<close> is a 64-bit word.
\<close>

definition SIZEOF_DATUM :: nat where
  "SIZEOF_DATUM = 8"

text \<open>
  The 64-bit integer whose memory image is a given sequence of eight bytes: on a
  little-endian host the first byte is the least significant, on a big-endian host the
  most significant.  \<^verbatim>\<open>memcpy(&res, data, sizeof(Datum))\<close> stores the image.
\<close>

definition le_word :: "8 word list \<Rightarrow> 64 word" where
  "le_word bs = foldr (\<lambda>b acc. ucast b OR push_bit 8 acc) bs 0"

definition be_word :: "8 word list \<Rightarrow> 64 word" where
  "be_word bs = foldl (\<lambda>acc b. push_bit 8 acc OR ucast b) 0 bs"

definition memcpy_to_Datum :: "bool \<Rightarrow> 8 word list \<Rightarrow> 64 word" where
  "memcpy_to_Datum big src =
     (if big then be_word (take SIZEOF_DATUM src) else le_word (take SIZEOF_DATUM src))"

text \<open>
  Modelled from the spec: \<^verbatim>\<open>DatumBigEndianToNative\<close> and \<^verbatim>\<open>pg_bswap64\<close> are declared in
  \<^verbatim>\<open>port/pg_bswap.h\<close>, which is not among the sources.  The word is to be read "as if it
  were a big-endian number, regardless of host endianness": nothing is done on a
  big-endian host, and the eight bytes are swapped end for end on a little-endian one
  (the comment in \<^verbatim>\<open>uuid_abbrev_convert\<close>: "Byteswap on little-endian machines").
\<close>

definition pg_bswap64 :: "64 word \<Rightarrow> 64 word" where
  "pg_bswap64 x =
     (push_bit 56 x AND 0xff00000000000000) OR
     (push_bit 40 x AND 0x00ff000000000000) OR
     (push_bit 24 x AND 0x0000ff0000000000) OR
     (push_bit 8 x AND 0x000000ff00000000) OR
     (drop_bit 8 x AND 0x00000000ff000000) OR
     (drop_bit 24 x AND 0x0000000000ff0000) OR
     (drop_bit 40 x AND 0x000000000000ff00) OR
     (drop_bit 56 x AND 0x00000000000000ff)"

definition DatumBigEndianToNative :: "bool \<Rightarrow> 64 word \<Rightarrow> 64 word" where
  "DatumBigEndianToNative big x = (if big then x else pg_bswap64 x)"

text \<open>
  Modelled from the spec: \<^verbatim>\<open>ssup_datum_unsigned_cmp\<close>, the comparator installed for the
  abbreviated keys, is defined outside the sources; it is the plain three-way comparison
  of two words as unsigned integers.
\<close>

definition ssup_datum_unsigned_cmp :: "64 word \<Rightarrow> 64 word \<Rightarrow> int" where
  "ssup_datum_unsigned_cmp x y = (if x < y then - 1 else if y < x then 1 else 0)"

text \<open>
  \<^verbatim>\<open>uuid_abbrev_convert\<close> returns the abbreviated key and the updated sort state
  (\<^verbatim>\<open>SIZEOF_DATUM == 8\<close> branch of the hash input).
\<close>

definition uuid_abbrev_convert ::
  "('h, 'd) platform \<Rightarrow> pg_uuid_t \<Rightarrow> 'h uuid_sortsupport_state
     \<Rightarrow> 64 word \<times> 'h uuid_sortsupport_state" where
  "uuid_abbrev_convert pf authoritative uss =
     (let res = memcpy_to_Datum (WORDS_BIGENDIAN pf) authoritative;
          uss = uss\<lparr>input_count := input_count uss + 1\<rparr>;
          uss = (if estimating uss then
                   (let tmp = (ucast res :: 32 word) XOR ucast (drop_bit 32 res)
                    in uss\<lparr>abbr_card := addHyperLogLog pf (abbr_card uss) (hash_uint32 pf tmp)\<rparr>)
                 else uss);
          res = DatumBigEndianToNative (WORDS_BIGENDIAN pf) res
      in (res, uss))"

text \<open>
  \<^verbatim>\<open>uuid_abbrev_abort\<close> returns its result and the updated sort state.  \<^verbatim>\<open>memtupcount\<close>
  is an \<^verbatim>\<open>int\<close>.  The \<^verbatim>\<open>TRACE_SORT\<close> logging is left out.
\<close>

definition uuid_abbrev_abort ::
  "('h, 'd) platform \<Rightarrow> int \<Rightarrow> 'h uuid_sortsupport_state
     \<Rightarrow> bool \<times> 'h uuid_sortsupport_state" where
  "uuid_abbrev_abort pf memtupcount uss =
     (if memtupcount < 10000 \<or> input_count uss < 10000 \<or> \<not> estimating uss then (False, uss)
      else
        (let card = estimateHyperLogLog pf (abbr_card uss) in
         if double_less pf (double_literal pf 100000.0) card
         then (False, uss\<lparr>estimating := False\<rparr>)
         else if double_less pf card
                   (double_add pf
                      (double_div pf (double_of_int64 pf (input_count uss))
                         (double_literal pf 2000.0))
                      (double_literal pf 0.5))
         then (True, uss)
         else (False, uss)))"

text \<open>
  The calls a sort makes on one sort state, in order: conversions of values and abort
  checks with the number of rows buffered.  \<open>sort_calls\<close> collects the results of the
  abort checks.
\<close>

datatype sort_call = Convert pg_uuid_t | Abort int

fun sort_calls ::
  "('h, 'd) platform \<Rightarrow> 'h uuid_sortsupport_state \<Rightarrow> sort_call list
     \<Rightarrow> bool list \<times> 'h uuid_sortsupport_state" where
  "sort_calls pf uss [] = ([], uss)"
| "sort_calls pf uss (Convert v # cs) =
     sort_calls pf (snd (uuid_abbrev_convert pf v uss)) cs"
| "sort_calls pf uss (Abort memtupcount # cs) =
     (let (r, uss') = uuid_abbrev_abort pf memtupcount uss;
          (rs, uss'') = sort_calls pf uss' cs
      in (r # rs, uss''))"

text \<open>
  The value of a byte sequence read as a big-endian number.
\<close>

fun be_nat :: "8 word list \<Rightarrow> nat" where
  "be_nat [] = 0"
| "be_nat (b # bs) = unat b * 256 ^ length bs + be_nat bs"

text \<open>Byte \<open>i\<close> of a 64-bit word, counted from the least significant.\<close>

definition byte_of :: "nat \<Rightarrow> 64 word \<Rightarrow> 64 word" where
  "byte_of i x = ucast (ucast (drop_bit (8 * i) x) :: 8 word)"

text \<open>
  A platform for concrete evaluations: exact rational arithmetic in place of
  \<^verbatim>\<open>double\<close> (the literals and the values used are exact in both), and a stand-in
  estimator whose state is the estimate itself.
\<close>

definition example_platform :: "bool \<Rightarrow> (nat, rat) platform" where
  "example_platform big =
     \<lparr>WORDS_BIGENDIAN = big, initHyperLogLog = (\<lambda>bwidth. 0),
      addHyperLogLog = (\<lambda>h x. h), estimateHyperLogLog = of_nat, hash_uint32 = (\<lambda>x. x),
      double_literal = (\<lambda>q. q), double_of_int64 = of_int, double_add = (+),
      double_div = (/), double_less = (<)\<rparr>"

section \<open>Properties of the generator\<close>

lemma upt_8: "[0..<8] = [0, 1, 2, 3, 4, 5, 6, 7]"
  by (simp add: upt_rec)

text \<open>The sixteen bytes of a generated value, in terms of the branch taken.\<close>

lemma uuidv7_value:
  "uuidv7 st tp (Some r) =
     (let (st', tms) = uuidv7_advance st (clock_tms tp); c = sequence_counter st' in
      (Inr [ucast (drop_bit 40 tms), ucast (drop_bit 32 tms), ucast (drop_bit 24 tms),
            ucast (drop_bit 16 tms), ucast (drop_bit 8 tms), ucast tms,
            (ucast (drop_bit 14 c) AND 0x0f) OR 0x70, ucast (drop_bit 6 c),
            (r 0 AND 0x3f) OR 0x80, r 1, r 2, r 3, r 4, r 5, r 6, r 7], st'))"
  by (simp add: uuidv7_def uuidv7_layout_def fill_random_def UUID_LEN_def upt_8
      eval_nat_numeral Let_def split: prod.split)

lemma uuidv7_state_indep: "snd (uuidv7 st tp rnd) = fst (uuidv7_advance st (clock_tms tp))"
  by (simp add: uuidv7_def Let_def split: prod.split option.split)

text \<open>
  Byte 8 of a generated value holds the variant bits and six bits of the first random
  byte; the counter does not reach it.
\<close>

lemma uuidv7_byte_8:
  "map_sum id (\<lambda>uuid. uuid ! 8) (fst (uuidv7 st tp (Some r))) = Inr ((r 0 AND 0x3f) OR 0x80)"
  by (simp add: uuidv7_value Let_def split: prod.split)

text \<open>
  C1, at the failing input.  Two calls in the same millisecond (the clock reads 5 ms both
  times, the statics hold \<open>previous_timestamp = 5\<close>), the random source giving bytes
  \<open>0x3f\<close> in the first call and \<open>0x00\<close> in the second: the second value returned is
  smaller than the first under the byte-wise ordering, so the sequence is not
  non-decreasing.
\<close>

theorem uuidv7_same_millisecond_decreasing:
  "uuidv7_calls \<lparr>sequence_counter = 0, previous_timestamp = 5\<rparr>
     [(\<lparr>tv_sec = 0, tv_usec = 5000\<rparr>, Some (\<lambda>i. 0x3f)),
      (\<lparr>tv_sec = 0, tv_usec = 5000\<rparr>, Some (\<lambda>i. 0))]
   = ([Inr [0, 0, 0, 0, 0, 5, 0x70, 0, 0xbf, 0x3f, 0x3f, 0x3f, 0x3f, 0x3f, 0x3f, 0x3f],
       Inr [0, 0, 0, 0, 0, 5, 0x70, 0, 0x80, 0, 0, 0, 0, 0, 0, 0]],
      \<lparr>sequence_counter = 2, previous_timestamp = 5\<rparr>)
   \<and> uuid_internal_cmp
         [0, 0, 0, 0, 0, 5, 0x70, 0, 0xbf, 0x3f, 0x3f, 0x3f, 0x3f, 0x3f, 0x3f, 0x3f]
         [0, 0, 0, 0, 0, 5, 0x70, 0, 0x80, 0, 0, 0, 0, 0, 0, 0] = 1"
  by code_simp

text \<open>
  C2, at the failing input.  From \<open>previous_timestamp = 5\<close> and \<open>sequence_counter = 0\<close>, a
  call at clock reading 5 ms uses counter 1, whose low six bits are \<open>000001\<close>; with a
  random source giving \<open>0x3e\<close> the low six bits of byte 8 of the returned value are
  \<open>111110\<close>: the random fill, which starts at byte 8, has replaced the counter bits.
\<close>

theorem uuidv7_byte_8_loses_counter_bits:
  "uuidv7 \<lparr>sequence_counter = 0, previous_timestamp = 5\<rparr>
      \<lparr>tv_sec = 0, tv_usec = 5000\<rparr> (Some (\<lambda>i. 0x3e))
   = (Inr [0, 0, 0, 0, 0, 5, 0x70, 0, 0xbe, 0x3e, 0x3e, 0x3e, 0x3e, 0x3e, 0x3e, 0x3e],
      \<lparr>sequence_counter = 1, previous_timestamp = 5\<rparr>)
   \<and> (0xbe :: 8 word) AND 0x3f = 0x3e
   \<and> (ucast (1 :: 32 word) :: 8 word) AND 0x3f = 0x01"
  by code_simp

text \<open>
  C3, what the code does.  When the clock reading is strictly greater than
  \<open>previous_timestamp\<close>, the call sets \<open>previous_timestamp\<close> to the reading and
  \<open>sequence_counter\<close> to zero, whatever the random source gives (also when it fails): the
  counter is not seeded from random bits.
\<close>

theorem uuidv7_reset_counter_is_zero:
  "previous_timestamp st < clock_tms tp \<Longrightarrow>
   snd (uuidv7 st tp rnd) = st\<lparr>sequence_counter := 0, previous_timestamp := clock_tms tp\<rparr>"
  by (simp add: uuidv7_def uuidv7_advance_def Let_def not_le [symmetric] split: option.split)

theorem uuidv7_reset_counter_is_zero_witness:
  "previous_timestamp initial_state < clock_tms \<lparr>tv_sec = 0, tv_usec = 5000\<rparr> \<and>
   snd (uuidv7 initial_state \<lparr>tv_sec = 0, tv_usec = 5000\<rparr> (Some (\<lambda>i. 0xff)))
     = \<lparr>sequence_counter = 0, previous_timestamp = 5\<rparr>"
proof -
  have h: "previous_timestamp initial_state < clock_tms \<lparr>tv_sec = 0, tv_usec = 5000\<rparr>"
    by (simp add: initial_state_def clock_tms_def signed_divide_int_def)
  show ?thesis
    using h uuidv7_reset_counter_is_zero [OF h, of "Some (\<lambda>i. 0xff)"]
    by (simp add: initial_state_def clock_tms_def signed_divide_int_def)
qed

subsection \<open>The pair of statics\<close>

lemma counter_succ_le: "(c :: 32 word) \<le> 0x3ffff \<Longrightarrow> c \<le> c + 1"
  by (simp add: word_le_nat_alt unat_word_ariths)

lemma counter_succ_overflow: "(c :: 32 word) \<le> 0x3ffff \<Longrightarrow> 0x3ffff < c + 1 \<Longrightarrow> c = 0x3ffff"
  by (simp add: word_le_nat_alt word_less_nat_alt unat_word_ariths word_unat_eq_iff)

lemma timestamp_succ_less: "(p :: 64 word) < 0xFFFFFFFFFFFFFFFF \<Longrightarrow> p < p + 1"
  by (simp add: word_less_nat_alt unat_word_ariths)

text \<open>The counter stays within 18 bits: every state reached from the initial one has it.\<close>

lemma uuidv7_counter_18_bits:
  "sequence_counter st \<le> 0x3ffff \<Longrightarrow> sequence_counter (snd (uuidv7 st tp rnd)) \<le> 0x3ffff"
  by (simp add: uuidv7_state_indep uuidv7_advance_def Let_def not_less)

lemma uuidv7_stalled_step:
  assumes "clock_tms tp \<le> previous_timestamp st" "sequence_counter st < 0x3ffff"
  shows "snd (uuidv7 st tp rnd) = st\<lparr>sequence_counter := sequence_counter st + 1\<rparr>"
proof -
  from assms(2) have "\<not> 0x3ffff < sequence_counter st + 1"
    by (simp add: word_less_nat_alt unat_word_ariths)
  with assms(1) show ?thesis
    by (simp add: uuidv7_state_indep uuidv7_advance_def Let_def)
qed

lemma uuidv7_stalled_calls:
  assumes "clock_tms tp \<le> previous_timestamp st" "unat (sequence_counter st) + n \<le> 0x3ffff"
  shows "snd (uuidv7_calls st (replicate n (tp, rnd)))
           = st\<lparr>sequence_counter := sequence_counter st + of_nat n\<rparr>"
  using assms
proof (induction n arbitrary: st)
  case 0
  show ?case by simp
next
  case (Suc n)
  let ?st = "st\<lparr>sequence_counter := sequence_counter st + 1\<rparr>"
  from Suc.prems(2) have lt: "sequence_counter st < 0x3ffff"
    by (simp add: word_less_nat_alt)
  have step: "snd (uuidv7 st tp rnd) = ?st"
    using Suc.prems(1) lt by (rule uuidv7_stalled_step)
  from Suc.prems(2) have "unat (sequence_counter st + 1) = unat (sequence_counter st) + 1"
    by (simp add: unat_word_ariths)
  with Suc.prems have "unat (sequence_counter ?st) + n \<le> 0x3ffff"
    and "clock_tms tp \<le> previous_timestamp ?st"
    by simp_all
  from Suc.IH [OF this(2,1)] step show ?case
    by (simp add: split_beta Let_def)
qed

text \<open>
  The state at which the 64-bit timestamp is about to wrap is reached from the initial
  statics: by one call with the clock at 1969-12-31 23:59:59.999999 (\<open>tv_sec = -1\<close>,
  which the cast to \<^verbatim>\<open>uint64_t\<close> turns into a reading of \<open>2 ^ 64 - 1\<close> ms), followed by
  262143 calls at any clock reading.
\<close>

lemma wrap_state_reachable:
  "snd (uuidv7_calls initial_state
          ((\<lparr>tv_sec = - 1, tv_usec = 999999\<rparr>, None)
             # replicate 262143 (\<lparr>tv_sec = 1700000000, tv_usec = 0\<rparr>, None)))
     = \<lparr>sequence_counter = 0x3ffff, previous_timestamp = 0xFFFFFFFFFFFFFFFF\<rparr>"
proof -
  let ?st = "\<lparr>sequence_counter = 0, previous_timestamp = 0xFFFFFFFFFFFFFFFF\<rparr>"
  have first: "snd (uuidv7 initial_state \<lparr>tv_sec = - 1, tv_usec = 999999\<rparr> None) = ?st"
    by code_simp
  have le: "clock_tms \<lparr>tv_sec = 1700000000, tv_usec = 0\<rparr> \<le> previous_timestamp ?st"
    by code_simp
  have "snd (uuidv7_calls ?st (replicate 262143 (\<lparr>tv_sec = 1700000000, tv_usec = 0\<rparr>, None)))
      = ?st\<lparr>sequence_counter := sequence_counter ?st + of_nat 262143\<rparr>"
    by (rule uuidv7_stalled_calls [OF le]) simp
  with first show ?thesis
    by (simp add: split_beta Let_def)
qed

text \<open>
  C5, as stated, fails where the 64-bit timestamp wraps.  With
  \<open>previous_timestamp = 2 ^ 64 - 1\<close> and the counter at \<open>0x3ffff\<close>, every clock reading
  takes the increment branch, the counter overflows to 0 and \<open>previous_timestamp++\<close>
  wraps to 0: the pair after the call is \<open>(0, 0)\<close>, below the pair before it.
\<close>

theorem uuidv7_state_wraps:
  "\<not> state_le \<lparr>sequence_counter = 0x3ffff, previous_timestamp = 0xFFFFFFFFFFFFFFFF\<rparr>
      (snd (uuidv7 \<lparr>sequence_counter = 0x3ffff, previous_timestamp = 0xFFFFFFFFFFFFFFFF\<rparr>
             \<lparr>tv_sec = 1700000000, tv_usec = 0\<rparr> (Some (\<lambda>i. 0))))"
  by code_simp

text \<open>
  C5, amended.  From every state whose counter is within 18 bits, other than the one
  state \<open>(2 ^ 64 - 1, 0x3ffff)\<close> where the timestamp would wrap, a call leaves the pair
  \<open>(previous_timestamp, sequence_counter)\<close> greater than or equal to its value before
  the call, for every clock reading and every outcome of the random source.
\<close>

theorem uuidv7_state_monotone:
  assumes "sequence_counter st \<le> 0x3ffff"
    and "previous_timestamp st < 0xFFFFFFFFFFFFFFFF \<or> sequence_counter st < 0x3ffff"
  shows "state_le st (snd (uuidv7 st tp rnd))"
  using assms
  by (auto simp: uuidv7_state_indep uuidv7_advance_def Let_def state_le_def
      counter_succ_le timestamp_succ_less dest: counter_succ_overflow)

theorem uuidv7_state_monotone_witness:
  "state_le \<lparr>sequence_counter = 0x3ffff, previous_timestamp = 5\<rparr>
     (snd (uuidv7 \<lparr>sequence_counter = 0x3ffff, previous_timestamp = 5\<rparr>
            \<lparr>tv_sec = 0, tv_usec = 3000\<rparr> None))
   \<and> snd (uuidv7 \<lparr>sequence_counter = 0x3ffff, previous_timestamp = 5\<rparr>
            \<lparr>tv_sec = 0, tv_usec = 3000\<rparr> None)
       = \<lparr>sequence_counter = 0, previous_timestamp = 6\<rparr>"
proof -
  have "state_le \<lparr>sequence_counter = 0x3ffff, previous_timestamp = 5\<rparr>
     (snd (uuidv7 \<lparr>sequence_counter = 0x3ffff, previous_timestamp = 5\<rparr>
            \<lparr>tv_sec = 0, tv_usec = 3000\<rparr> None))"
    by (rule uuidv7_state_monotone) simp_all
  moreover have "snd (uuidv7 \<lparr>sequence_counter = 0x3ffff, previous_timestamp = 5\<rparr>
            \<lparr>tv_sec = 0, tv_usec = 3000\<rparr> None)
       = \<lparr>sequence_counter = 0, previous_timestamp = 6\<rparr>"
    by code_simp
  ultimately show ?thesis by simp
qed

section \<open>Properties of the timestamp extractor\<close>

lemma all_less_8:
  "(\<forall>n<8. P n) \<longleftrightarrow> P 0 \<and> P 1 \<and> P 2 \<and> P 3 \<and> P 4 \<and> P 5 \<and> P 6 \<and> P (7::nat)"
proof -
  have "{..<8::nat} = {0,1,2,3,4,5,6,7}" by auto
  then have "(\<forall>n<8. P n) \<longleftrightarrow> (\<forall>n \<in> {0,1,2,3,4,5,6,7}. P n)" by (metis lessThan_iff)
  then show ?thesis by simp
qed

lemma byte_eq_iff: "(a :: 8 word) = b \<longleftrightarrow> (\<forall>n<8. bit a n = bit b n)"
  by (auto simp: bit_eq_iff [where 'a = "8 word"] dest: bit_imp_le_length)

lemmas byte_bits = byte_eq_iff all_less_8 bit_simps

lemma variant_bits: "(b :: 8 word) AND 0xc0 = 0x80 \<longleftrightarrow> drop_bit 6 b = 2"
  by (auto simp add: byte_bits dest: bit_imp_le_length)

lemma version_bits_7: "(b :: 8 word) AND 0xf0 = 0x70 \<longleftrightarrow> drop_bit 4 b = 7"
  by (auto simp add: byte_bits dest: bit_imp_le_length)

lemma version_bits_1: "(b :: 8 word) AND 0xf0 = 0x10 \<longleftrightarrow> drop_bit 4 b = 1"
  by (auto simp add: byte_bits dest: bit_imp_le_length)

lemma version_bits_6: "(b :: 8 word) AND 0xf0 = 0x60 \<longleftrightarrow> drop_bit 4 b = 6"
  by (auto simp add: byte_bits dest: bit_imp_le_length)

lemma set_version_7: "drop_bit 4 (((x :: 8 word) AND 0x0f) OR 0x70) = 7"
  by (auto simp add: byte_bits dest: bit_imp_le_length)

lemma set_variant: "drop_bit 6 (((x :: 8 word) AND 0x3f) OR 0x80) = 2"
  by (auto simp add: byte_bits dest: bit_imp_le_length)

lemma digits48:
  fixes n :: nat
  assumes "n < 2 ^ 48"
  shows "(n div 2 ^ 40) mod 256 * 2 ^ 40 + (n div 2 ^ 32) mod 256 * 2 ^ 32
       + (n div 2 ^ 24) mod 256 * 2 ^ 24 + (n div 2 ^ 16) mod 256 * 2 ^ 16
       + (n div 2 ^ 8) mod 256 * 2 ^ 8 + n mod 256 = n"
proof -
  have step: "(m div 2 ^ k) mod 256 * 2 ^ k + m mod 2 ^ k = m mod 2 ^ (k + 8)" for m k :: nat
  proof -
    have "m mod 2 ^ (k + 8) = m mod (2 ^ k * 256)" by (simp add: power_add)
    also have "\<dots> = 2 ^ k * (m div 2 ^ k mod 256) + m mod 2 ^ k" by (rule mod_mult2_eq)
    finally show ?thesis by simp
  qed
  have "n = n mod 2 ^ (40 + 8)" using assms by simp
  also have "\<dots> = (n div 2 ^ 40) mod 256 * 2 ^ 40 + n mod 2 ^ (32 + 8)" using step [of n 40] by simp
  also have "n mod 2 ^ (32 + 8) = (n div 2 ^ 32) mod 256 * 2 ^ 32 + n mod 2 ^ (24 + 8)" using step [of n 32] by simp
  also have "n mod 2 ^ (24 + 8) = (n div 2 ^ 24) mod 256 * 2 ^ 24 + n mod 2 ^ (16 + 8)" using step [of n 24] by simp
  also have "n mod 2 ^ (16 + 8) = (n div 2 ^ 16) mod 256 * 2 ^ 16 + n mod 2 ^ (8 + 8)" using step [of n 16] by simp
  also have "n mod 2 ^ (8 + 8) = (n div 2 ^ 8) mod 256 * 2 ^ 8 + n mod 2 ^ (0 + 8)" using step [of n 8] by simp
  finally show ?thesis by simp
qed

lemma unat_byte_of:
  "unat (ucast (drop_bit k (w :: 64 word)) :: 8 word) = (unat w div 2 ^ k) mod 256"
  by (simp add: unsigned_ucast_eq unat_drop_bit_eq take_bit_eq_mod) (simp add: drop_bit_eq_div)

lemma unat_drop_bit_div: "unat (drop_bit k (w :: 64 word)) = unat w div 2 ^ k"
  by (simp add: unat_drop_bit_eq) (simp add: drop_bit_eq_div)

lemma unat_low_byte: "unat (ucast (w :: 64 word) :: 8 word) = unat w mod 256"
  by (simp add: unsigned_ucast_eq take_bit_eq_mod)

lemma be48_time_part:
  assumes "tms < 2 ^ 48"
  shows "be48 (ucast (drop_bit 40 tms) # ucast (drop_bit 32 tms) # ucast (drop_bit 24 tms) #
            ucast (drop_bit 16 tms) # ucast (drop_bit 8 tms) # ucast (tms :: 64 word) # rest) = unat tms"
proof -
  have "unat tms < 2 ^ 48" using assms by (simp add: word_less_nat_alt)
  from digits48 [OF this] show ?thesis
    by (simp add: be48_def unat_byte_of unat_low_byte unat_drop_bit_div)
qed

lemma byte_bound: "unat (b :: 8 word) < 256"
  using unsigned_less [of b, where 'a=nat] by simp

lemma be48_bound: "be48 u < 2 ^ 48"
  using byte_bound [of "u ! 0"] byte_bound [of "u ! 1"] byte_bound [of "u ! 2"]
   byte_bound [of "u ! 3"] byte_bound [of "u ! 4"] byte_bound [of "u ! 5"]
  by (simp add: be48_def)

lemma v7_tms: "ucast (u ! 5) + push_bit 8 (ucast (u ! 4)) + push_bit 16 (ucast (u ! 3))
   + push_bit 24 (ucast (u ! 2)) + push_bit 32 (ucast (u ! 1)) + push_bit 40 (ucast ((u :: 8 word list) ! 0))
   = (of_nat (be48 u) :: 64 word)"
  by (simp add: be48_def push_bit_eq_mult)

lemma sint_word_of_int_64:
  "- (2 ^ 63) \<le> x \<Longrightarrow> x < 2 ^ 63 \<Longrightarrow> sint (word_of_int x :: 64 word) = x"
  by (simp add: sint_sbintrunc' signed_take_bit_int_eq_self)

lemma sint_ts:
  assumes "0 \<le> s" "s < 2 ^ 63" "n < 2 ^ 48"
  shows "sint ((of_nat n :: 64 word) * 1000 - word_of_int s) = int n * 1000 - s"
proof -
  have eq: "(of_nat n :: 64 word) * 1000 - word_of_int s = word_of_int (int n * 1000 - s)"
    by simp
  have "- (2 ^ 63) \<le> int n * 1000 - s" "int n * 1000 - s < 2 ^ 63"
    using assms by simp_all
  then have "sint (word_of_int (int n * 1000 - s) :: 64 word) = int n * 1000 - s"
    by (rule sint_word_of_int_64)
  then show ?thesis by (simp only: eq)
qed

lemma extract_v7:
  assumes "drop_bit 6 (uuid ! 8) = 2" "drop_bit 4 (uuid ! 6) = 7"
    and "0 \<le> unix_epoch_shift k" "unix_epoch_shift k < 2 ^ 63"
  shows "map_option sint (uuid_extract_timestamp k uuid)
           = Some (int (be48 uuid) * 1000 - unix_epoch_shift k)"
proof -
  have "uuid_extract_timestamp k uuid
          = Some (of_nat (be48 uuid) * 1000 - word_of_int (unix_epoch_shift k))"
    using assms(1,2) v7_tms [of uuid]
    by (simp add: uuid_extract_timestamp_def variant_bits version_bits_7 Let_def
        del: distrib_right_numeral)
  then show ?thesis
    using sint_ts [OF assms(3,4) be48_bound [of uuid]] by simp
qed

text \<open>
  C9.  \<^verbatim>\<open>uuid_extract_timestamp\<close> is a total function (it has no error path) and returns
  absent for every value whose variant bits, the top two bits of byte 8, are not \<open>10\<close> or
  whose version nibble, the top four bits of byte 6, is not 1, 6 or 7; the all-zero nil
  value is one of them.  When the variant is \<open>10\<close> and the version is 7 it returns the
  big-endian 48-bit integer of bytes 0 to 5, taken as milliseconds since the Unix epoch
  and moved to the engine's epoch by exact integer arithmetic: times 1000, minus the
  epoch shift in microseconds (for any shift a signed 64-bit constant can hold without
  being negative, as PostgreSQL's 946684800000000 is).
\<close>

theorem uuid_extract_timestamp_cases:
  "(drop_bit 6 (uuid ! 8) \<noteq> 2 \<or> drop_bit 4 (uuid ! 6) \<notin> {1, 6, 7}
      \<longrightarrow> uuid_extract_timestamp k uuid = None)
   \<and> uuid_extract_timestamp k (replicate UUID_LEN 0) = None
   \<and> (drop_bit 6 (uuid ! 8) = 2 \<and> drop_bit 4 (uuid ! 6) = 7
        \<and> 0 \<le> unix_epoch_shift k \<and> unix_epoch_shift k < 2 ^ 63
      \<longrightarrow> map_option sint (uuid_extract_timestamp k uuid)
            = Some (int (be48 uuid) * 1000 - unix_epoch_shift k))"
proof (intro conjI impI)
  assume "drop_bit 6 (uuid ! 8) \<noteq> 2 \<or> drop_bit 4 (uuid ! 6) \<notin> {1, 6, 7}"
  then show "uuid_extract_timestamp k uuid = None"
    by (auto simp: uuid_extract_timestamp_def variant_bits version_bits_7 version_bits_1
        version_bits_6 Let_def)
next
  show "uuid_extract_timestamp k (replicate UUID_LEN 0) = None"
    by (simp add: uuid_extract_timestamp_def UUID_LEN_def)
next
  assume "drop_bit 6 (uuid ! 8) = 2 \<and> drop_bit 4 (uuid ! 6) = 7
        \<and> 0 \<le> unix_epoch_shift k \<and> unix_epoch_shift k < 2 ^ 63"
  then show "map_option sint (uuid_extract_timestamp k uuid)
            = Some (int (be48 uuid) * 1000 - unix_epoch_shift k)"
    by (simp add: extract_v7)
qed

text \<open>
  C10.  Whenever \<^verbatim>\<open>uuidv7\<close> returns a value and the effective millisecond timestamp of
  the call is below \<open>2 ^ 48\<close>, the value has version nibble \<open>0111\<close> and variant bits
  \<open>10\<close>, and \<^verbatim>\<open>uuid_extract_timestamp\<close> applied to it is not absent and gives back
  exactly that effective timestamp, in microseconds of the engine's epoch.
\<close>

theorem uuidv7_extract_timestamp:
  assumes "uuidv7 st tp rnd = (Inr uuid, st')"
    and "uuidv7_effective_tms st tp < 2 ^ 48"
    and "0 \<le> unix_epoch_shift k" and "unix_epoch_shift k < 2 ^ 63"
  shows "drop_bit 4 (uuid ! 6) = 7 \<and> drop_bit 6 (uuid ! 8) = 2 \<and>
         map_option sint (uuid_extract_timestamp k uuid)
           = Some (int (unat (uuidv7_effective_tms st tp)) * 1000 - unix_epoch_shift k)"
proof -
  obtain r where r: "rnd = Some r"
    using assms(1) by (cases rnd) (auto simp: uuidv7_def Let_def split: prod.splits)
  let ?tms = "uuidv7_effective_tms st tp"
  obtain rest where u: "uuid = ucast (drop_bit 40 ?tms) # ucast (drop_bit 32 ?tms) #
      ucast (drop_bit 24 ?tms) # ucast (drop_bit 16 ?tms) # ucast (drop_bit 8 ?tms) #
      ucast ?tms # rest"
    and v: "drop_bit 4 (uuid ! 6) = 7" "drop_bit 6 (uuid ! 8) = 2"
    using assms(1) unfolding r uuidv7_value
    by (auto simp: Let_def uuidv7_effective_tms_def set_version_7 set_variant split: prod.splits)
  have "be48 uuid = unat ?tms"
    unfolding u by (rule be48_time_part [OF assms(2)])
  with extract_v7 [OF v(2) v(1) assms(3,4)] v show ?thesis by simp
qed


theorem uuid_extract_timestamp_cases_witness:
  "drop_bit 6 ([0xde, 0xad, 0xbe, 0xef, 0, 1, 0x45, 2, 0xc3, 4, 5, 6, 7, 8, 9, 10 :: 8 word] ! 8) = 3
   \<and> drop_bit 4 ([0xde, 0xad, 0xbe, 0xef, 0, 1, 0x45, 2, 0xc3, 4, 5, 6, 7, 8, 9, 10 :: 8 word] ! 6) = 4
   \<and> uuid_extract_timestamp pg_timestamp_h
         [0xde, 0xad, 0xbe, 0xef, 0, 1, 0x45, 2, 0xc3, 4, 5, 6, 7, 8, 9, 10] = None
   \<and> uuid_extract_timestamp pg_timestamp_h (replicate UUID_LEN 0) = None
   \<and> drop_bit 6 ([0x01, 0x8f, 0xc5, 0x2c, 0xd2, 0x7b, 0x70, 0, 0x80, 1, 2, 3, 4, 5, 6, 7 :: 8 word] ! 8) = 2
   \<and> drop_bit 4 ([0x01, 0x8f, 0xc5, 0x2c, 0xd2, 0x7b, 0x70, 0, 0x80, 1, 2, 3, 4, 5, 6, 7 :: 8 word] ! 6) = 7
   \<and> 0 \<le> unix_epoch_shift pg_timestamp_h \<and> unix_epoch_shift pg_timestamp_h < 2 ^ 63
   \<and> map_option sint (uuid_extract_timestamp pg_timestamp_h
         [0x01, 0x8f, 0xc5, 0x2c, 0xd2, 0x7b, 0x70, 0, 0x80, 1, 2, 3, 4, 5, 6, 7])
       = Some (1717000000123 * 1000 - 946684800000000)"
proof -
  let ?a = "[0xde, 0xad, 0xbe, 0xef, 0, 1, 0x45, 2, 0xc3, 4, 5, 6, 7, 8, 9, 10 :: 8 word]"
  let ?b = "[0x01, 0x8f, 0xc5, 0x2c, 0xd2, 0x7b, 0x70, 0, 0x80, 1, 2, 3, 4, 5, 6, 7 :: 8 word]"
  have a: "drop_bit 6 (?a ! 8) \<noteq> 2 \<or> drop_bit 4 (?a ! 6) \<notin> {1, 6, 7}"
    by simp
  have b: "drop_bit 6 (?b ! 8) = 2 \<and> drop_bit 4 (?b ! 6) = 7
        \<and> 0 \<le> unix_epoch_shift pg_timestamp_h \<and> unix_epoch_shift pg_timestamp_h < 2 ^ 63"
    by (simp add: unix_epoch_shift_def pg_timestamp_h_def)
  have c: "int (be48 ?b) * 1000 - unix_epoch_shift pg_timestamp_h
             = 1717000000123 * 1000 - 946684800000000"
    by (simp add: be48_def unix_epoch_shift_def pg_timestamp_h_def)
  have a': "drop_bit 6 (?a ! 8) = 3 \<and> drop_bit 4 (?a ! 6) = 4"
    by simp
  from a a' b c uuid_extract_timestamp_cases [of ?a pg_timestamp_h]
    uuid_extract_timestamp_cases [of ?b pg_timestamp_h]
  show ?thesis
    by simp
qed

theorem uuidv7_extract_timestamp_witness:
  "uuidv7 initial_state \<lparr>tv_sec = 1717000000, tv_usec = 123456\<rparr> (Some (\<lambda>i. 0xab))
     = (Inr [0x01, 0x8f, 0xc5, 0x2c, 0xd2, 0x7b, 0x70, 0, 0xab, 0xab, 0xab, 0xab, 0xab, 0xab,
             0xab, 0xab],
        \<lparr>sequence_counter = 0, previous_timestamp = 1717000000123\<rparr>)
   \<and> uuidv7_effective_tms initial_state \<lparr>tv_sec = 1717000000, tv_usec = 123456\<rparr> < 2 ^ 48
   \<and> 0 \<le> unix_epoch_shift pg_timestamp_h \<and> unix_epoch_shift pg_timestamp_h < 2 ^ 63
   \<and> map_option sint (uuid_extract_timestamp pg_timestamp_h
         [0x01, 0x8f, 0xc5, 0x2c, 0xd2, 0x7b, 0x70, 0, 0xab, 0xab, 0xab, 0xab, 0xab, 0xab,
          0xab, 0xab])
       = Some (1717000000123 * 1000 - 946684800000000)"
proof -
  let ?tp = "\<lparr>tv_sec = 1717000000, tv_usec = 123456\<rparr>"
  let ?u = "[0x01, 0x8f, 0xc5, 0x2c, 0xd2, 0x7b, 0x70, 0, 0xab, 0xab, 0xab, 0xab, 0xab, 0xab,
             0xab, 0xab :: 8 word]"
  have h1: "uuidv7 initial_state ?tp (Some (\<lambda>i. 0xab))
     = (Inr ?u, \<lparr>sequence_counter = 0, previous_timestamp = 1717000000123\<rparr>)"
    by code_simp
  have e: "uuidv7_effective_tms initial_state ?tp = 1717000000123"
    by code_simp
  have h2: "uuidv7_effective_tms initial_state ?tp < 2 ^ 48"
    unfolding e by simp
  have h3: "0 \<le> unix_epoch_shift pg_timestamp_h"
    and h4: "unix_epoch_shift pg_timestamp_h < 2 ^ 63"
    and s: "unix_epoch_shift pg_timestamp_h = 946684800000000"
    by (simp_all add: unix_epoch_shift_def pg_timestamp_h_def)
  from uuidv7_extract_timestamp [OF h1 h2 h3 h4] h1 h2 h3 h4 show ?thesis
    by (simp add: e s)
qed

section \<open>Properties of the text codec\<close>

lemma length_16_conv:
  "length (v :: 'a list) = 16 \<longleftrightarrow>
     (\<exists>b0 b1 b2 b3 b4 b5 b6 b7 b8 b9 b10 b11 b12 b13 b14 b15.
        v = [b0, b1, b2, b3, b4, b5, b6, b7, b8, b9, b10, b11, b12, b13, b14, b15])"
  by (auto simp: eval_nat_numeral length_Suc_conv)


lemma uuid_out_loop_step:
  "i < UUID_LEN \<Longrightarrow> uuid_out_loop uuid i p =
     uuid_out_loop uuid (Suc i)
       ((if i = 4 \<or> i = 6 \<or> i = 8 \<or> i = 10 then p @ ''-'' else p)
          @ [hex_chars ! unat (drop_bit 4 (uuid ! i)), hex_chars ! unat (uuid ! i AND 0x0F)])"
  by (subst uuid_out_loop.simps) (simp add: Let_def)

lemma uuid_out_loop_done: "\<not> i < UUID_LEN \<Longrightarrow> uuid_out_loop uuid i p = p"
  by (subst uuid_out_loop.simps) simp

lemma uuid_out_16:
  "uuid_out [b0, b1, b2, b3, b4, b5, b6, b7, b8, b9, b10, b11, b12, b13, b14, b15] =
    [hexc (drop_bit 4 b0), hexc (b0 AND 0x0F), hexc (drop_bit 4 b1), hexc (b1 AND 0x0F),
     hexc (drop_bit 4 b2), hexc (b2 AND 0x0F), hexc (drop_bit 4 b3), hexc (b3 AND 0x0F),
     CHR ''-'',
     hexc (drop_bit 4 b4), hexc (b4 AND 0x0F), hexc (drop_bit 4 b5), hexc (b5 AND 0x0F),
     CHR ''-'',
     hexc (drop_bit 4 b6), hexc (b6 AND 0x0F), hexc (drop_bit 4 b7), hexc (b7 AND 0x0F),
     CHR ''-'',
     hexc (drop_bit 4 b8), hexc (b8 AND 0x0F), hexc (drop_bit 4 b9), hexc (b9 AND 0x0F),
     CHR ''-'',
     hexc (drop_bit 4 b10), hexc (b10 AND 0x0F), hexc (drop_bit 4 b11), hexc (b11 AND 0x0F),
     hexc (drop_bit 4 b12), hexc (b12 AND 0x0F), hexc (drop_bit 4 b13), hexc (b13 AND 0x0F),
     hexc (drop_bit 4 b14), hexc (b14 AND 0x0F), hexc (drop_bit 4 b15), hexc (b15 AND 0x0F)]"
  by (simp add: uuid_out_def uuid_out_loop_step uuid_out_loop_done UUID_LEN_def hexc_def)


lemma hi_nibble_less: "unat (drop_bit 4 (b :: 8 word)) < 16"
proof -
  have "unat b < 256" using unsigned_less [of b, where 'a = nat] by simp
  then show ?thesis by (simp add: unat_drop_bit_eq) (simp add: drop_bit_eq_div)
qed

lemma lo_nibble_less: "unat ((b :: 8 word) AND 0x0F) < 16"
proof -
  have "b AND 0x0F \<le> 0x0F" by (rule word_and_le1)
  then have "unat (b AND 0x0F) \<le> unat (0x0F :: 8 word)" by (simp only: word_le_nat_alt)
  then show ?thesis by simp
qed

lemma byte_of_nibbles: "16 * drop_bit 4 b + (b AND 0x0F) = (b :: 8 word)"
proof -
  have "b AND 0x0F = take_bit 4 b"
    by (simp add: take_bit_eq_mask mask_eq_exp_minus_1)
  then have "16 * drop_bit 4 b + (b AND 0x0F) = 2 ^ 4 * (b div 2 ^ 4) + b mod 2 ^ 4"
    by (simp add: drop_bit_eq_div take_bit_eq_mod)
  also have "\<dots> = b" by (rule mult_div_mod_eq)
  finally show ?thesis .
qed

lemma replicate_16:
  "replicate 16 x = [x, x, x, x, x, x, x, x, x, x, x, x, x, x, x, x]"
  by (simp add: eval_nat_numeral)

lemma less_16_cases:
  "n < 16 \<Longrightarrow> n \<in> {0, 1, 2, 3, 4, 5, 6, 7, 8, 9, 10, 11, 12, 13, 14, 15 :: nat}"
  by (simp only: insert_iff empty_iff) arith

lemma hexc_props:
  assumes "unat x < 16"
  shows "isxdigit (hexc x)" "hexc x \<noteq> NUL" "hexc x \<noteq> CHR ''-''"
    "xdigit_value (hexc x) = unat x" "hexc x \<in> set hex_chars"
  using less_16_cases [OF assms]
  by (auto simp: hexc_def hex_chars_def isxdigit_def xdigit_value_def NUL_def)

lemma isxdigit_not_NUL: "isxdigit c \<Longrightarrow> c \<noteq> NUL"
  by (auto simp: isxdigit_def NUL_def)

lemma string_to_uuid_loop_step:
  assumes "i < UUID_LEN" "isxdigit c1" "isxdigit c2"
  shows "string_to_uuid_loop i (c1 # c2 # rest) uuid =
     string_to_uuid_loop (Suc i)
       (if cstr_at rest 0 = CHR ''-'' \<and> i mod 2 = 1 \<and> i < UUID_LEN - 1 then drop 1 rest else rest)
       (uuid[i := of_nat (16 * xdigit_value c1 + xdigit_value c2)])"
  using assms isxdigit_not_NUL [of c1] isxdigit_not_NUL [of c2]
  by (subst string_to_uuid_loop.simps) (simp add: Let_def cstr_at_def strtoul_16_def)

lemma string_to_uuid_loop_done:
  "\<not> i < UUID_LEN \<Longrightarrow> string_to_uuid_loop i src uuid = Some (uuid, src)"
  by (subst string_to_uuid_loop.simps) simp

lemma cstr_at_Cons_0: "cstr_at (c # s) 0 = c"
  by (simp add: cstr_at_def)

lemma cstr_at_Nil: "cstr_at [] k = NUL"
  by (simp add: cstr_at_def)

lemma hexc_not_brace: "unat x < 16 \<Longrightarrow> hexc x \<noteq> CHR ''{''"
  using less_16_cases [of "unat x"]
  by (auto simp: hexc_def hex_chars_def)

lemma roundtrip_16:
  "string_to_uuid (uuid_out [b0, b1, b2, b3, b4, b5, b6, b7, b8, b9, b10, b11, b12, b13, b14, b15])
     = Inr [b0, b1, b2, b3, b4, b5, b6, b7, b8, b9, b10, b11, b12, b13, b14, b15]"
  unfolding uuid_out_16
  by (simp add: string_to_uuid_def string_to_uuid_loop_step string_to_uuid_loop_done
      hexc_props hexc_not_brace hi_nibble_less lo_nibble_less byte_of_nibbles
      cstr_at_Cons_0 cstr_at_Nil UUID_LEN_def replicate_16)

lemma canonical_16:
  "canonical_text (uuid_out [b0, b1, b2, b3, b4, b5, b6, b7, b8, b9, b10, b11, b12, b13, b14, b15])"
  unfolding uuid_out_16 canonical_text_def
  by (simp add: hexc_props hi_nibble_less lo_nibble_less)

text \<open>
  C6.  For every 16-byte value, \<^verbatim>\<open>uuid_out\<close> produces exactly 36 characters in the
  canonical form (lowercase hexadecimal grouped 8-4-4-4-12, hyphens between the groups,
  no braces), and \<^verbatim>\<open>string_to_uuid\<close> applied to that text succeeds and returns the
  value.
\<close>

theorem uuid_out_roundtrip:
  assumes "length v = UUID_LEN"
  shows "length (uuid_out v) = 36 \<and> canonical_text (uuid_out v) \<and>
         string_to_uuid (uuid_out v) = Inr v"
proof -
  from assms obtain b0 b1 b2 b3 b4 b5 b6 b7 b8 b9 b10 b11 b12 b13 b14 b15
    where v: "v = [b0, b1, b2, b3, b4, b5, b6, b7, b8, b9, b10, b11, b12, b13, b14, b15]"
    unfolding UUID_LEN_def length_16_conv by blast
  have "length (uuid_out v) = 36"
    unfolding v uuid_out_16 by simp
  moreover have "canonical_text (uuid_out v)"
    unfolding v by (rule canonical_16)
  moreover have "string_to_uuid (uuid_out v) = Inr v"
    unfolding v by (rule roundtrip_16)
  ultimately show ?thesis by simp
qed

theorem uuid_out_roundtrip_witness:
  "length [0x55, 0x0e, 0x84, 0x00, 0xe2, 0x9b, 0x41, 0xd4, 0xa7, 0x16, 0x44, 0x66, 0x55, 0x44,
           0x00, 0x00 :: 8 word] = UUID_LEN
   \<and> uuid_out [0x55, 0x0e, 0x84, 0x00, 0xe2, 0x9b, 0x41, 0xd4, 0xa7, 0x16, 0x44, 0x66, 0x55,
                 0x44, 0x00, 0x00] = ''550e8400-e29b-41d4-a716-446655440000''
   \<and> canonical_text ''550e8400-e29b-41d4-a716-446655440000''
   \<and> string_to_uuid ''550e8400-e29b-41d4-a716-446655440000''
       = Inr [0x55, 0x0e, 0x84, 0x00, 0xe2, 0x9b, 0x41, 0xd4, 0xa7, 0x16, 0x44, 0x66, 0x55,
              0x44, 0x00, 0x00]"
proof -
  let ?v = "[0x55, 0x0e, 0x84, 0x00, 0xe2, 0x9b, 0x41, 0xd4, 0xa7, 0x16, 0x44, 0x66, 0x55, 0x44,
             0x00, 0x00 :: 8 word]"
  have l: "length ?v = UUID_LEN"
    by (simp add: UUID_LEN_def)
  have o: "uuid_out ?v = ''550e8400-e29b-41d4-a716-446655440000''"
    by code_simp
  from uuid_out_roundtrip [OF l] l o show ?thesis
    by simp
qed

subsection \<open>Hyphens in the input text\<close>

lemma hyphen_not_xdigit: "\<not> isxdigit CHR ''-''"
  by (simp add: isxdigit_def)

lemma brace_not_xdigit: "\<not> isxdigit CHR ''{''"
  by (simp add: isxdigit_def)

lemma hex_groups_Suc_cases:
  assumes "hex_groups (Suc n) cons"
  obtains c1 c2 r where "cons = c1 # c2 # r" "isxdigit c1" "isxdigit c2" "hex_groups n r"
  | c1 c2 r' where "cons = c1 # c2 # CHR ''-'' # r'" "isxdigit c1" "isxdigit c2"
      "even n" "0 < n" "hex_groups n r'"
proof (cases cons)
  case Nil
  with assms show ?thesis by simp
next
  case (Cons c1 t)
  show ?thesis
  proof (cases t)
    case Nil
    with Cons assms show ?thesis by simp
  next
    case (Cons c2 r)
    with \<open>cons = c1 # t\<close> assms that show ?thesis
      by (cases r) auto
  qed
qed

lemma split_after_two:
  assumes "c1 # c2 # r = xs @ CHR ''-'' # ys" "c1 \<noteq> CHR ''-''" "c2 \<noteq> CHR ''-''"
  obtains xs' where "xs = c1 # c2 # xs'" "r = xs' @ CHR ''-'' # ys"
proof (cases xs)
  case Nil
  with assms show ?thesis by simp
next
  case (Cons a t)
  show ?thesis
  proof (cases t)
    case Nil
    with Cons assms show ?thesis by simp
  next
    case (Cons b xs')
    with \<open>xs = a # t\<close> assms that show ?thesis by simp
  qed
qed

lemma groups_hyphen:
  assumes "hex_groups m cons" "m \<le> 16" "cons = xs @ CHR ''-'' # ys"
  shows "xs \<noteq> [] \<and> isxdigit (last xs) \<and>
         (\<exists>k. 1 \<le> k \<and> k \<le> 7 \<and> 2 * (16 - m) + length (filter isxdigit xs) = 4 * k)"
  using assms
proof (induction m arbitrary: cons xs)
  case 0
  then show ?case by simp
next
  case (Suc n)
  from Suc.prems(1) show ?case
  proof (cases rule: hex_groups_Suc_cases)
    case (1 c1 c2 r)
    then have ne: "c1 \<noteq> CHR ''-''" "c2 \<noteq> CHR ''-''"
      using hyphen_not_xdigit by auto
    from Suc.prems(3) 1(1) have "c1 # c2 # r = xs @ CHR ''-'' # ys" by simp
    then obtain xs' where xs: "xs = c1 # c2 # xs'" and r: "r = xs' @ CHR ''-'' # ys"
      using ne by (rule split_after_two)
    from Suc.IH [OF 1(4) _ r] Suc.prems(2)
    obtain k where k: "xs' \<noteq> []" "isxdigit (last xs')" "1 \<le> k" "k \<le> 7"
      "2 * (16 - n) + length (filter isxdigit xs') = 4 * k"
      by auto
    have "2 * (16 - Suc n) + length (filter isxdigit xs) = 4 * k"
      using k(5) Suc.prems(2) 1(2,3) by (simp add: xs)
    with k show ?thesis by (auto simp: xs)
  next
    case (2 c1 c2 r')
    then have ne: "c1 \<noteq> CHR ''-''" "c2 \<noteq> CHR ''-''"
      using hyphen_not_xdigit by auto
    from Suc.prems(3) 2(1) have "c1 # c2 # CHR ''-'' # r' = xs @ CHR ''-'' # ys" by simp
    then obtain xs' where xs: "xs = c1 # c2 # xs'" and r: "CHR ''-'' # r' = xs' @ CHR ''-'' # ys"
      using ne by (rule split_after_two)
    show ?thesis
    proof (cases xs')
      case Nil
      from 2(4,5) Suc.prems(2) obtain j where j: "n = 2 * j" "1 \<le> j" "j \<le> 7"
        by (auto elim!: evenE)
      have "2 * (16 - Suc n) + length (filter isxdigit xs) = 4 * (8 - j)"
        using j 2(2,3) by (simp add: xs Nil)
      moreover have "1 \<le> 8 - j" "8 - j \<le> 7" using j by simp_all
      ultimately show ?thesis using 2(3) by (auto simp: xs Nil)
    next
      case (Cons a xs'')
      with r have a: "a = CHR ''-''" and r': "r' = xs'' @ CHR ''-'' # ys" by simp_all
      from Suc.IH [OF 2(6) _ r'] Suc.prems(2)
      obtain k where k: "xs'' \<noteq> []" "isxdigit (last xs'')" "1 \<le> k" "k \<le> 7"
        "2 * (16 - n) + length (filter isxdigit xs'') = 4 * k"
        by auto
      have "2 * (16 - Suc n) + length (filter isxdigit xs) = 4 * k"
        using k(5) Suc.prems(2) 2(2,3) hyphen_not_xdigit by (simp add: xs Cons a)
      with k show ?thesis by (auto simp: xs Cons a)
    qed
  qed
qed


lemma cstr_at_0_NUL: "NUL \<notin> set s \<Longrightarrow> cstr_at s 0 = NUL \<longleftrightarrow> s = []"
  by (cases s) (auto simp: cstr_at_def)

lemma cstr_at_0_eq: "c \<noteq> NUL \<Longrightarrow> cstr_at s 0 = c \<longleftrightarrow> (\<exists>t. s = c # t)"
  by (cases s) (auto simp: cstr_at_def)

lemma loop_groups:
  assumes "string_to_uuid_loop i src uuid = Some (u', rest)" "NUL \<notin> set src"
  shows "\<exists>cons. src = cons @ rest \<and> hex_groups (UUID_LEN - i) cons"
  using assms
proof (induction i src uuid rule: string_to_uuid_loop.induct)
  case (1 i src uuid)
  show ?case
  proof (cases "i < UUID_LEN")
    case False
    with "1.prems" show ?thesis
      by (simp add: string_to_uuid_loop.simps [of i])
  next
    case True
    from "1.prems"(1) True have nn: "\<not> (cstr_at src 0 = NUL \<or> cstr_at src 1 = NUL)"
      by (subst (asm) string_to_uuid_loop.simps) (auto split: if_splits)
    from "1.prems"(1) True nn
    have xd': "\<not> (\<not> isxdigit (take 2 src ! 0) \<or> \<not> isxdigit (take 2 src ! 1))"
      by (subst (asm) string_to_uuid_loop.simps) (auto simp: Let_def split: if_splits)
    define src' where "src' = (if cstr_at (drop 2 src) 0 = CHR ''-'' \<and> i mod 2 = 1 \<and>
        i < UUID_LEN - 1 then drop 1 (drop 2 src) else drop 2 src)"
    define uuid' where "uuid' = uuid[i := of_nat (strtoul_16 (take 2 src))]"
    have rec: "string_to_uuid_loop (i + 1) src' uuid' = Some (u', rest)"
      using "1.prems"(1) True nn xd'
      by (subst (asm) string_to_uuid_loop.simps) (simp add: Let_def src'_def uuid'_def)
    have "NUL \<notin> set src'"
      using "1.prems"(2) by (auto simp: src'_def dest: in_set_dropD)
    with "1.IH" [OF True nn refl xd' refl refl refl, folded src'_def uuid'_def] rec
    obtain cons where cons: "src' = cons @ rest" "hex_groups (UUID_LEN - (i + 1)) cons"
      by blast
    from nn obtain c1 c2 r where src: "src = c1 # c2 # r"
      by (cases src; cases "tl src") (auto simp: cstr_at_def)
    from xd' have xd: "isxdigit c1" "isxdigit c2"
      by (simp_all add: src)
    obtain n where n: "UUID_LEN - i = Suc n" "UUID_LEN - (i + 1) = n"
      using True by (cases "UUID_LEN - i") auto
    show ?thesis
    proof (cases "cstr_at r 0 = CHR ''-'' \<and> i mod 2 = 1 \<and> i < UUID_LEN - 1")
      case False
      then have "src' = r" by (auto simp: src'_def src)
      with cons n xd show ?thesis
        by (intro exI [of _ "c1 # c2 # cons"]) (simp add: src)
    next
      case h: True
      then obtain r' where r: "r = CHR ''-'' # r'"
        by (cases r) (auto simp: cstr_at_def NUL_def)
      with h have "src' = r'" by (simp add: src'_def src)
      moreover have "even n" "0 < n"
        using h n by (auto simp: UUID_LEN_def)
      ultimately show ?thesis
        using cons n xd
        by (intro exI [of _ "c1 # c2 # CHR ''-'' # cons"]) (simp add: src r)
    qed
  qed
qed


lemma string_to_uuid_result:
  "string_to_uuid s = Inl (INVALID_TEXT_REPRESENTATION s) \<or> (\<exists>u. string_to_uuid s = Inr u)"
  by (auto simp: string_to_uuid_def Let_def split: option.splits prod.splits)

lemma accepted_structure:
  assumes "string_to_uuid s = Inr u" "NUL \<notin> set s"
  shows "\<exists>cons. hex_groups UUID_LEN cons \<and> (s = cons \<or> s = CHR ''{'' # cons @ ''}'')"
proof (cases "cstr_at s 0 = CHR ''{''")
  case False
  with assms(1) obtain rest where l: "string_to_uuid_loop 0 s (replicate UUID_LEN 0) = Some (u, rest)"
    and e: "cstr_at rest 0 = NUL"
    by (auto simp: string_to_uuid_def Let_def split: option.splits if_splits)
  from loop_groups [OF l assms(2)] obtain cons where c: "s = cons @ rest" "hex_groups UUID_LEN cons"
    by auto
  with assms(2) e have "rest = []" by (simp add: cstr_at_0_NUL)
  with c show ?thesis by auto
next
  case True
  then obtain t where s: "s = CHR ''{'' # t"
    by (cases s) (auto simp: cstr_at_def NUL_def)
  with assms(1) True obtain rest where l: "string_to_uuid_loop 0 t (replicate UUID_LEN 0) = Some (u, rest)"
    and b: "cstr_at rest 0 = CHR ''}''" and e: "cstr_at (drop 1 rest) 0 = NUL"
    by (auto simp: string_to_uuid_def Let_def split: option.splits if_splits)
  from assms(2) s have nt: "NUL \<notin> set t" by simp
  from loop_groups [OF l nt] obtain cons where c: "t = cons @ rest" "hex_groups UUID_LEN cons"
    by auto
  from b obtain rest' where r: "rest = CHR ''}'' # rest'"
    by (cases rest) (auto simp: cstr_at_def NUL_def)
  with nt c e have "rest' = []" by (simp add: cstr_at_0_NUL)
  with c r s show ?thesis by auto
qed

lemma hyphen_elsewhere:
  assumes "NUL \<notin> set s" and "s = xs @ CHR ''-'' # ys"
    and "xs = [] \<or> \<not> isxdigit (last xs) \<or>
         length (filter isxdigit xs) \<notin> {4, 8, 12, 16, 20, 24, 28}"
  shows "string_to_uuid s = Inl (INVALID_TEXT_REPRESENTATION s)"
proof (rule ccontr)
  assume "string_to_uuid s \<noteq> Inl (INVALID_TEXT_REPRESENTATION s)"
  with string_to_uuid_result [of s] obtain u where "string_to_uuid s = Inr u" by auto
  from accepted_structure [OF this assms(1)] obtain cons
    where g: "hex_groups 16 cons" and s: "s = cons \<or> s = CHR ''{'' # cons @ ''}''"
    by (auto simp: UUID_LEN_def)
  have good: "xs' \<noteq> [] \<and> isxdigit (last xs') \<and>
      length (filter isxdigit xs') \<in> {4, 8, 12, 16, 20, 24, 28}"
    if "cons = xs' @ CHR ''-'' # ys'" for xs' ys'
  proof -
    from groups_hyphen [OF g _ that] obtain k where k: "xs' \<noteq> []" "isxdigit (last xs')"
      "1 \<le> k" "k \<le> 7" "length (filter isxdigit xs') = 4 * k"
      by auto
    from k(3,4) have "k \<in> {1, 2, 3, 4, 5, 6, 7}" by auto
    with k show ?thesis by auto
  qed
  from s show False
  proof
    assume "s = cons"
    with assms(2) good [of xs ys] assms(3) show False by auto
  next
    assume b: "s = CHR ''{'' # cons @ ''}''"
    with assms(2) obtain xs' where xs: "xs = CHR ''{'' # xs'" and c: "cons @ ''}'' = xs' @ CHR ''-'' # ys"
      by (cases xs) auto
    from c obtain ys' where "ys = ys' @ ''}''" "cons = xs' @ CHR ''-'' # ys'"
      by (cases ys rule: rev_cases) auto
    from good [OF this(2)] assms(3) show False
      by (auto simp: xs brace_not_xdigit)
  qed
qed

lemma hyphen_consumed_iff:
  assumes "i < UUID_LEN" "isxdigit c1" "isxdigit c2"
  shows "string_to_uuid_loop i (c1 # c2 # CHR ''-'' # rest) uuid =
     (if i \<in> {1, 3, 5, 7, 9, 11, 13}
      then string_to_uuid_loop (i + 1) rest (uuid[i := of_nat (strtoul_16 [c1, c2])])
      else if i = 15 then Some (uuid[i := of_nat (strtoul_16 [c1, c2])], CHR ''-'' # rest)
      else None)"
proof -
  have odd_iff: "i \<in> {1, 3, 5, 7, 9, 11, 13} \<longleftrightarrow> i mod 2 = 1 \<and> i < UUID_LEN - 1"
    using assms(1) unfolding UUID_LEN_def by (simp only: insert_iff empty_iff) presburger
  show ?thesis
  proof (cases "i mod 2 = 1 \<and> i < UUID_LEN - 1")
    case True
    with assms odd_iff show ?thesis
      by (simp add: string_to_uuid_loop_step cstr_at_Cons_0 strtoul_16_def)
  next
    case False
    show ?thesis
    proof (cases "i = 15")
      case True
      with assms False odd_iff show ?thesis
        by (simp add: string_to_uuid_loop_step string_to_uuid_loop_done cstr_at_Cons_0
            strtoul_16_def UUID_LEN_def)
    next
      case n15: False
      with assms(1) have lt: "Suc i < UUID_LEN" by (simp add: UUID_LEN_def)
      have "string_to_uuid_loop (Suc i) (CHR ''-'' # rest) u = None" for u
        using lt hyphen_not_xdigit
        by (subst string_to_uuid_loop.simps) (simp add: Let_def cstr_at_def)
      moreover from False odd_iff have "i \<notin> {1, 3, 5, 7, 9, 11, 13}"
        by blast
      ultimately show ?thesis
        using assms False n15
        by (auto simp add: string_to_uuid_loop_step cstr_at_Cons_0)
    qed
  qed
qed

text \<open>
  C4, as stated, fails: the text below has a hyphen after every group of four hexadecimal
  digits, among them after 4, 24 and 28 digits (output bytes 1, 11 and 13), and it is
  accepted.
\<close>

theorem string_to_uuid_accepts_hyphen_after_4_digits:
  "string_to_uuid ''550e-8400-e29b-41d4-a716-4466-5544-0000''
     = Inr [0x55, 0x0e, 0x84, 0x00, 0xe2, 0x9b, 0x41, 0xd4, 0xa7, 0x16, 0x44, 0x66, 0x55, 0x44,
            0x00, 0x00]"
  by code_simp

text \<open>
  C4, amended.  The loop of \<^verbatim>\<open>string_to_uuid\<close> consumes a hyphen that follows the two
  digits of output byte \<open>i\<close> exactly when \<open>i\<close> is one of 1, 3, 5, 7, 9, 11, 13, that is
  after each complete group of four hexadecimal digits except the last; after another
  byte below 15 the hyphen makes the next iteration fail, and after byte 15 it is left
  as trailing text.  So for every input text, a hyphen that does not directly follow a
  hexadecimal digit, or that has a number of hexadecimal digits before it other than
  4, 8, 12, 16, 20, 24 or 28, is a syntax error.
\<close>

theorem string_to_uuid_hyphen_positions:
  "(i < UUID_LEN \<and> isxdigit c1 \<and> isxdigit c2 \<longrightarrow>
      string_to_uuid_loop i (c1 # c2 # CHR ''-'' # rest) uuid =
        (if i \<in> {1, 3, 5, 7, 9, 11, 13}
         then string_to_uuid_loop (i + 1) rest (uuid[i := of_nat (strtoul_16 [c1, c2])])
         else if i = 15 then Some (uuid[i := of_nat (strtoul_16 [c1, c2])], CHR ''-'' # rest)
         else None))
   \<and> (NUL \<notin> set s \<and> s = xs @ CHR ''-'' # ys \<and>
        (xs = [] \<or> \<not> isxdigit (last xs) \<or>
         length (filter isxdigit xs) \<notin> {4, 8, 12, 16, 20, 24, 28}) \<longrightarrow>
      string_to_uuid s = Inl (INVALID_TEXT_REPRESENTATION s))"
  using hyphen_consumed_iff [of i c1 c2 rest uuid] hyphen_elsewhere [of s xs ys]
  by blast

theorem string_to_uuid_hyphen_positions_witness:
  "string_to_uuid_loop 2 ''84-00e29b41d4a716446655440000'' (replicate UUID_LEN 0) = None
   \<and> string_to_uuid_loop 3 ''00-e29b41d4a716446655440000'' (replicate UUID_LEN 0)
       = string_to_uuid_loop (3 + 1) ''e29b41d4a716446655440000''
           ((replicate UUID_LEN 0)[3 := of_nat (strtoul_16 ''00'')])
   \<and> NUL \<notin> set ''550e84-00e29b41d4a716446655440000''
   \<and> length (filter isxdigit ''550e84'') = 6
   \<and> string_to_uuid ''550e84-00e29b41d4a716446655440000''
       = Inl (INVALID_TEXT_REPRESENTATION ''550e84-00e29b41d4a716446655440000'')"
proof -
  have x: "isxdigit CHR ''8''" "isxdigit CHR ''4''" "isxdigit CHR ''0''"
    by (simp_all add: isxdigit_def)
  have n: "NUL \<notin> set ''550e84-00e29b41d4a716446655440000''"
    by (simp add: NUL_def)
  have l: "length (filter isxdigit ''550e84'') = 6"
    by (simp add: isxdigit_def)
  have a: "string_to_uuid_loop 2 ''84-00e29b41d4a716446655440000'' (replicate UUID_LEN 0) = None"
    using string_to_uuid_hyphen_positions
      [of 2 "CHR ''8''" "CHR ''4''" "''00e29b41d4a716446655440000''" "replicate UUID_LEN 0",
        THEN conjunct1] x
    by (simp add: UUID_LEN_def)
  have b: "string_to_uuid_loop 3 ''00-e29b41d4a716446655440000'' (replicate UUID_LEN 0)
       = string_to_uuid_loop (3 + 1) ''e29b41d4a716446655440000''
           ((replicate UUID_LEN 0)[3 := of_nat (strtoul_16 ''00'')])"
    using string_to_uuid_hyphen_positions
      [of 3 "CHR ''0''" "CHR ''0''" "''e29b41d4a716446655440000''" "replicate UUID_LEN 0",
        THEN conjunct1] x
    by (simp add: UUID_LEN_def)
  have c: "string_to_uuid ''550e84-00e29b41d4a716446655440000''
       = Inl (INVALID_TEXT_REPRESENTATION ''550e84-00e29b41d4a716446655440000'')"
  proof (rule string_to_uuid_hyphen_positions
      [of _ _ _ _ _ _ "''550e84''" "''00e29b41d4a716446655440000''", THEN conjunct2, THEN mp])
    show "NUL \<notin> set ''550e84-00e29b41d4a716446655440000'' \<and>
      ''550e84-00e29b41d4a716446655440000''
        = ''550e84'' @ CHR ''-'' # ''00e29b41d4a716446655440000'' \<and>
      (''550e84'' = [] \<or> \<not> isxdigit (last ''550e84'') \<or>
       length (filter isxdigit ''550e84'') \<notin> {4, 8, 12, 16, 20, 24, 28})"
      using n l by simp
  qed
  from a b n l c show ?thesis
    by (intro conjI)
qed

section \<open>Properties of the abbreviated keys\<close>

lemma byte_masks:
  "(0xff00000000000000 :: 64 word) = push_bit 56 (mask 8)"
  "(0x00ff000000000000 :: 64 word) = push_bit 48 (mask 8)"
  "(0x0000ff0000000000 :: 64 word) = push_bit 40 (mask 8)"
  "(0x000000ff00000000 :: 64 word) = push_bit 32 (mask 8)"
  "(0x00000000ff000000 :: 64 word) = push_bit 24 (mask 8)"
  "(0x0000000000ff0000 :: 64 word) = push_bit 16 (mask 8)"
  "(0x000000000000ff00 :: 64 word) = push_bit 8 (mask 8)"
  "(0x00000000000000ff :: 64 word) = mask 8"
  by (simp_all add: mask_eq_exp_minus_1 push_bit_eq_mult)

lemma bswap_term_0:
  "push_bit 56 (x :: 64 word) AND 0xff00000000000000 = push_bit 56 (byte_of 0 x)"
  unfolding byte_masks byte_of_def
  by (rule bit_word_eqI) (auto simp: bit_simps)

lemma bswap_term_1:
  "push_bit 40 (x :: 64 word) AND 0x00ff000000000000 = push_bit 48 (byte_of 1 x)"
  unfolding byte_masks byte_of_def
  by (rule bit_word_eqI) (auto simp: bit_simps)

lemma bswap_term_2:
  "push_bit 24 (x :: 64 word) AND 0x0000ff0000000000 = push_bit 40 (byte_of 2 x)"
  unfolding byte_masks byte_of_def
  by (rule bit_word_eqI) (auto simp: bit_simps)

lemma bswap_term_3:
  "push_bit 8 (x :: 64 word) AND 0x000000ff00000000 = push_bit 32 (byte_of 3 x)"
  unfolding byte_masks byte_of_def
  by (rule bit_word_eqI) (auto simp: bit_simps)

lemma bswap_term_4:
  "drop_bit 8 (x :: 64 word) AND 0x00000000ff000000 = push_bit 24 (byte_of 4 x)"
  unfolding byte_masks byte_of_def
  by (rule bit_word_eqI) (auto simp: bit_simps)

lemma bswap_term_5:
  "drop_bit 24 (x :: 64 word) AND 0x0000000000ff0000 = push_bit 16 (byte_of 5 x)"
  unfolding byte_masks byte_of_def
  by (rule bit_word_eqI) (auto simp: bit_simps)

lemma bswap_term_6:
  "drop_bit 40 (x :: 64 word) AND 0x000000000000ff00 = push_bit 8 (byte_of 6 x)"
  unfolding byte_masks byte_of_def
  by (rule bit_word_eqI) (auto simp: bit_simps)

lemma bswap_term_7:
  "drop_bit 56 (x :: 64 word) AND 0x00000000000000ff = push_bit 0 (byte_of 7 x)"
  unfolding byte_masks byte_of_def
  by (rule bit_word_eqI) (auto simp: bit_simps)

lemma pg_bswap64_bytes:
  "pg_bswap64 x =
     push_bit 56 (byte_of 0 x) OR push_bit 48 (byte_of 1 x) OR push_bit 40 (byte_of 2 x) OR
     push_bit 32 (byte_of 3 x) OR push_bit 24 (byte_of 4 x) OR push_bit 16 (byte_of 5 x) OR
     push_bit 8 (byte_of 6 x) OR push_bit 0 (byte_of 7 x)"
  unfolding pg_bswap64_def
  by (simp only: bswap_term_0 bswap_term_1 bswap_term_2 bswap_term_3 bswap_term_4
      bswap_term_5 bswap_term_6 bswap_term_7)

lemma byte_of_le_word:
  "byte_of 0 (le_word [b0, b1, b2, b3, b4, b5, b6, b7]) = ucast b0"
  "byte_of 1 (le_word [b0, b1, b2, b3, b4, b5, b6, b7]) = ucast b1"
  "byte_of 2 (le_word [b0, b1, b2, b3, b4, b5, b6, b7]) = ucast b2"
  "byte_of 3 (le_word [b0, b1, b2, b3, b4, b5, b6, b7]) = ucast b3"
  "byte_of 4 (le_word [b0, b1, b2, b3, b4, b5, b6, b7]) = ucast b4"
  "byte_of 5 (le_word [b0, b1, b2, b3, b4, b5, b6, b7]) = ucast b5"
  "byte_of 6 (le_word [b0, b1, b2, b3, b4, b5, b6, b7]) = ucast b6"
  "byte_of 7 (le_word [b0, b1, b2, b3, b4, b5, b6, b7]) = ucast b7"
proof -
  have "(ucast (drop_bit (8 * 0) (le_word [b0, b1, b2, b3, b4, b5, b6, b7])) :: 8 word) = b0"
    by (auto simp add: le_word_def byte_eq_iff all_less_8 bit_simps dest: bit_imp_le_length)
  then show "byte_of 0 (le_word [b0, b1, b2, b3, b4, b5, b6, b7]) = ucast b0"
    by (simp only: byte_of_def)
  have "(ucast (drop_bit (8 * 1) (le_word [b0, b1, b2, b3, b4, b5, b6, b7])) :: 8 word) = b1"
    by (auto simp add: le_word_def byte_eq_iff all_less_8 bit_simps dest: bit_imp_le_length)
  then show "byte_of 1 (le_word [b0, b1, b2, b3, b4, b5, b6, b7]) = ucast b1"
    by (simp only: byte_of_def)
  have "(ucast (drop_bit (8 * 2) (le_word [b0, b1, b2, b3, b4, b5, b6, b7])) :: 8 word) = b2"
    by (auto simp add: le_word_def byte_eq_iff all_less_8 bit_simps dest: bit_imp_le_length)
  then show "byte_of 2 (le_word [b0, b1, b2, b3, b4, b5, b6, b7]) = ucast b2"
    by (simp only: byte_of_def)
  have "(ucast (drop_bit (8 * 3) (le_word [b0, b1, b2, b3, b4, b5, b6, b7])) :: 8 word) = b3"
    by (auto simp add: le_word_def byte_eq_iff all_less_8 bit_simps dest: bit_imp_le_length)
  then show "byte_of 3 (le_word [b0, b1, b2, b3, b4, b5, b6, b7]) = ucast b3"
    by (simp only: byte_of_def)
  have "(ucast (drop_bit (8 * 4) (le_word [b0, b1, b2, b3, b4, b5, b6, b7])) :: 8 word) = b4"
    by (auto simp add: le_word_def byte_eq_iff all_less_8 bit_simps dest: bit_imp_le_length)
  then show "byte_of 4 (le_word [b0, b1, b2, b3, b4, b5, b6, b7]) = ucast b4"
    by (simp only: byte_of_def)
  have "(ucast (drop_bit (8 * 5) (le_word [b0, b1, b2, b3, b4, b5, b6, b7])) :: 8 word) = b5"
    by (auto simp add: le_word_def byte_eq_iff all_less_8 bit_simps dest: bit_imp_le_length)
  then show "byte_of 5 (le_word [b0, b1, b2, b3, b4, b5, b6, b7]) = ucast b5"
    by (simp only: byte_of_def)
  have "(ucast (drop_bit (8 * 6) (le_word [b0, b1, b2, b3, b4, b5, b6, b7])) :: 8 word) = b6"
    by (auto simp add: le_word_def byte_eq_iff all_less_8 bit_simps dest: bit_imp_le_length)
  then show "byte_of 6 (le_word [b0, b1, b2, b3, b4, b5, b6, b7]) = ucast b6"
    by (simp only: byte_of_def)
  have "(ucast (drop_bit (8 * 7) (le_word [b0, b1, b2, b3, b4, b5, b6, b7])) :: 8 word) = b7"
    by (auto simp add: le_word_def byte_eq_iff all_less_8 bit_simps dest: bit_imp_le_length)
  then show "byte_of 7 (le_word [b0, b1, b2, b3, b4, b5, b6, b7]) = ucast b7"
    by (simp only: byte_of_def)
qed

lemma be_word_8:
  "be_word [b0, b1, b2, b3, b4, b5, b6, b7] =
     push_bit 56 (ucast b0) OR push_bit 48 (ucast b1) OR push_bit 40 (ucast b2) OR
     push_bit 32 (ucast b3) OR push_bit 24 (ucast b4) OR push_bit 16 (ucast b5) OR
     push_bit 8 (ucast b6) OR push_bit 0 (ucast b7)"
  by (simp add: be_word_def or.assoc)

lemma bswap_le:
  "pg_bswap64 (le_word [b0, b1, b2, b3, b4, b5, b6, b7]) = be_word [b0, b1, b2, b3, b4, b5, b6, b7]"
  by (simp only: pg_bswap64_bytes byte_of_le_word be_word_8)

lemma or_add: "push_bit 8 (a :: 64 word) OR ucast (b :: 8 word) = a * 256 + ucast b"
proof -
  have "push_bit 8 a + ucast b = push_bit 8 a OR ucast b"
    by (rule disjunctive_add) (auto simp: bit_simps dest: bit_imp_le_length)
  then show ?thesis by (simp add: push_bit_eq_mult)
qed

lemma be_nat_bound: "be_nat bs < 256 ^ length bs"
proof (induction bs)
  case Nil
  show ?case by simp
next
  case (Cons b bs)
  let ?m = "(256 :: nat) ^ length bs"
  have "unat b + 1 \<le> 256" using byte_bound [of b] by simp
  then have le: "(unat b + 1) * ?m \<le> 256 * ?m" by (rule mult_right_mono) simp
  have "unat b * ?m + be_nat bs < unat b * ?m + ?m" using Cons by simp
  also have "\<dots> = (unat b + 1) * ?m" by simp
  also note le
  finally show ?case by simp
qed

lemma be_word_nat:
  "be_word [b0, b1, b2, b3, b4, b5, b6, b7] = of_nat (be_nat [b0, b1, b2, b3, b4, b5, b6, b7])"
  by (simp add: be_word_def or_add)

lemma unat_of_nat_64: "n < 2 ^ 64 \<Longrightarrow> unat (of_nat n :: 64 word) = n"
  by (simp add: unat_of_nat)

lemma unat_be_word:
  "unat (be_word [b0, b1, b2, b3, b4, b5, b6, b7]) = be_nat [b0, b1, b2, b3, b4, b5, b6, b7]"
proof -
  have "be_nat [b0, b1, b2, b3, b4, b5, b6, b7] < 256 ^ 8"
    using be_nat_bound [of "[b0, b1, b2, b3, b4, b5, b6, b7]"] by (simp only: list.size length_Cons) simp
  then have "be_nat [b0, b1, b2, b3, b4, b5, b6, b7] < 2 ^ 64" by simp
  then show ?thesis
    unfolding be_word_nat by (rule unat_of_nat_64)
qed

lemma digit_less:
  fixes a b m r s :: nat
  assumes "a < b" "r < m"
  shows "a * m + r < b * m + s"
proof -
  have "a * m + r < a * m + m" using assms(2) by simp
  also have "\<dots> = (a + 1) * m" by simp
  also have "\<dots> \<le> b * m" using assms(1) by (intro mult_right_mono) simp_all
  finally show ?thesis by simp
qed

lemma memcmp_be_nat:
  assumes "n \<le> length xs" "n \<le> length ys"
  shows "memcmp xs ys n =
     (if be_nat (take n xs) < be_nat (take n ys) then - 1
      else if be_nat (take n ys) < be_nat (take n xs) then 1 else 0)"
  using assms
proof (induction n arbitrary: xs ys)
  case 0
  show ?case by simp
next
  case (Suc n)
  then obtain x xs' y ys' where xs: "xs = x # xs'" and ys: "ys = y # ys'"
    by (cases xs; cases ys) auto
  with Suc.prems have len: "n \<le> length xs'" "n \<le> length ys'" by simp_all
  let ?m = "(256 :: nat) ^ n"
  have bx: "be_nat (take n xs') < ?m" and by': "be_nat (take n ys') < ?m"
    using be_nat_bound [of "take n xs'"] be_nat_bound [of "take n ys'"] len by simp_all
  have ex: "be_nat (take (Suc n) xs) = unat x * ?m + be_nat (take n xs')"
    and ey: "be_nat (take (Suc n) ys) = unat y * ?m + be_nat (take n ys')"
    using len by (simp_all add: xs ys)
  show ?case
  proof (cases "x < y")
    case True
    then have "unat x < unat y" by (simp add: word_less_nat_alt)
    from digit_less [OF this bx] True show ?thesis
      unfolding ex ey by (simp add: xs ys)
  next
    case nlt: False
    show ?thesis
    proof (cases "y < x")
      case True
      then have "unat y < unat x" by (simp add: word_less_nat_alt)
      from digit_less [OF this by'] digit_less [OF this by', THEN less_imp_not_less] True nlt
      show ?thesis
        unfolding ex ey by (simp add: xs ys)
    next
      case False
      with nlt have "x = y" by simp
      with Suc.IH [OF len] show ?thesis
        unfolding ex ey by (simp add: xs ys)
    qed
  qed
qed

lemma be_nat_inj:
  assumes "length xs = length ys" "be_nat xs = be_nat ys"
  shows "xs = ys"
  using assms
proof (induction xs ys rule: list_induct2)
  case Nil
  show ?case by simp
next
  case (Cons x xs y ys)
  let ?m = "(256 :: nat) ^ length xs"
  have bx: "be_nat xs < ?m" and by': "be_nat ys < ?m"
    using be_nat_bound [of xs] be_nat_bound [of ys] Cons.hyps by simp_all
  have "unat x = unat y"
  proof (rule ccontr)
    assume "unat x \<noteq> unat y"
    then consider "unat x < unat y" | "unat y < unat x" by linarith
    then show False
    proof cases
      case 1
      from digit_less [OF 1 bx, of "be_nat ys"] Cons.prems Cons.hyps show False by simp
    next
      case 2
      from digit_less [OF 2 by', of "be_nat xs"] Cons.prems Cons.hyps show False by simp
    qed
  qed
  then have "x = y" by (simp add: word_unat_eq_iff)
  with Cons show ?case by simp
qed


lemma length_8_conv:
  "length (v :: 'a list) = 8 \<longleftrightarrow>
     (\<exists>b0 b1 b2 b3 b4 b5 b6 b7. v = [b0, b1, b2, b3, b4, b5, b6, b7])"
  by (auto simp: eval_nat_numeral length_Suc_conv)

lemma datum_of_8_bytes:
  "DatumBigEndianToNative big (memcpy_to_Datum big [b0, b1, b2, b3, b4, b5, b6, b7])
     = be_word [b0, b1, b2, b3, b4, b5, b6, b7]"
  by (simp add: DatumBigEndianToNative_def memcpy_to_Datum_def SIZEOF_DATUM_def bswap_le)

lemma memcpy_to_Datum_take:
  "memcpy_to_Datum big v = memcpy_to_Datum big (take SIZEOF_DATUM v)"
  by (simp add: memcpy_to_Datum_def)

lemma uuid_abbrev_convert_key:
  assumes "SIZEOF_DATUM \<le> length v"
  obtains b0 b1 b2 b3 b4 b5 b6 b7
  where "take SIZEOF_DATUM v = [b0, b1, b2, b3, b4, b5, b6, b7]"
    and "fst (uuid_abbrev_convert pf v uss) = be_word [b0, b1, b2, b3, b4, b5, b6, b7]"
proof -
  from assms have "length (take SIZEOF_DATUM v) = 8"
    by (simp add: SIZEOF_DATUM_def)
  then obtain b0 b1 b2 b3 b4 b5 b6 b7
    where t: "take SIZEOF_DATUM v = [b0, b1, b2, b3, b4, b5, b6, b7]"
    unfolding length_8_conv by blast
  have "fst (uuid_abbrev_convert pf v uss)
      = DatumBigEndianToNative (WORDS_BIGENDIAN pf)
          (memcpy_to_Datum (WORDS_BIGENDIAN pf) (take SIZEOF_DATUM v))"
    using memcpy_to_Datum_take [of "WORDS_BIGENDIAN pf" v]
    by (simp add: uuid_abbrev_convert_def Let_def)
  then have "fst (uuid_abbrev_convert pf v uss) = be_word [b0, b1, b2, b3, b4, b5, b6, b7]"
    by (simp only: t datum_of_8_bytes)
  with t show ?thesis by (rule that)
qed

text \<open>
  C8.  For every pair of uuid values, on a little-endian and on a big-endian host and
  whatever the sort states, comparing the two abbreviated keys as unsigned integers
  gives the same three-way result as \<^verbatim>\<open>memcmp\<close> over the first \<^verbatim>\<open>sizeof(Datum)\<close> bytes of
  the two values; the keys are equal exactly when those prefixes are the same bytes.
\<close>

theorem uuid_abbrev_convert_order:
  assumes "length a = UUID_LEN" and "length b = UUID_LEN"
  shows "ssup_datum_unsigned_cmp (fst (uuid_abbrev_convert pf a ussa))
           (fst (uuid_abbrev_convert pf b ussb)) = memcmp a b SIZEOF_DATUM
       \<and> (fst (uuid_abbrev_convert pf a ussa) = fst (uuid_abbrev_convert pf b ussb)
            \<longleftrightarrow> take SIZEOF_DATUM a = take SIZEOF_DATUM b)"
proof -
  have la: "SIZEOF_DATUM \<le> length a" and lb: "SIZEOF_DATUM \<le> length b"
    using assms by (simp_all add: UUID_LEN_def SIZEOF_DATUM_def)
  from la obtain a0 a1 a2 a3 a4 a5 a6 a7
    where ta: "take SIZEOF_DATUM a = [a0, a1, a2, a3, a4, a5, a6, a7]"
      and ka: "fst (uuid_abbrev_convert pf a ussa) = be_word [a0, a1, a2, a3, a4, a5, a6, a7]"
    by (rule uuid_abbrev_convert_key)
  from lb obtain b0 b1 b2 b3 b4 b5 b6 b7
    where tb: "take SIZEOF_DATUM b = [b0, b1, b2, b3, b4, b5, b6, b7]"
      and kb: "fst (uuid_abbrev_convert pf b ussb) = be_word [b0, b1, b2, b3, b4, b5, b6, b7]"
    by (rule uuid_abbrev_convert_key)
  let ?ka = "fst (uuid_abbrev_convert pf a ussa)" and ?kb = "fst (uuid_abbrev_convert pf b ussb)"
  have ua: "unat ?ka = be_nat (take SIZEOF_DATUM a)"
    unfolding ka ta by (rule unat_be_word)
  have ub: "unat ?kb = be_nat (take SIZEOF_DATUM b)"
    unfolding kb tb by (rule unat_be_word)
  have "ssup_datum_unsigned_cmp ?ka ?kb = memcmp a b SIZEOF_DATUM"
    unfolding memcmp_be_nat [OF la lb] ssup_datum_unsigned_cmp_def word_less_nat_alt ua ub ..
  moreover have "?ka = ?kb \<longleftrightarrow> take SIZEOF_DATUM a = take SIZEOF_DATUM b"
  proof
    assume "?ka = ?kb"
    then have "be_nat (take SIZEOF_DATUM a) = be_nat (take SIZEOF_DATUM b)"
      using ua ub by simp
    moreover have "length (take SIZEOF_DATUM a) = length (take SIZEOF_DATUM b)"
      using la lb by simp
    ultimately show "take SIZEOF_DATUM a = take SIZEOF_DATUM b"
      by (rule be_nat_inj [rotated])
  next
    assume "take SIZEOF_DATUM a = take SIZEOF_DATUM b"
    then have "unat ?ka = unat ?kb" using ua ub by simp
    then show "?ka = ?kb" by (simp add: word_unat_eq_iff)
  qed
  ultimately show ?thesis by simp
qed

theorem uuid_abbrev_convert_order_witness:
  "length [0x55, 0x0e, 0x84, 0x00, 0xe2, 0x9b, 0x41, 0xd4, 0xa7, 0x16, 0x44, 0x66, 0x55, 0x44,
           0x00, 0x00 :: 8 word] = UUID_LEN
   \<and> length [0x55, 0x0e, 0x84, 0x00, 0xe2, 0x9b, 0x41, 0xd5, 0x00, 0x00, 0x00, 0x00, 0x00, 0x00,
             0x00, 0x00 :: 8 word] = UUID_LEN
   \<and> fst (uuid_abbrev_convert (example_platform False)
        [0x55, 0x0e, 0x84, 0x00, 0xe2, 0x9b, 0x41, 0xd4, 0xa7, 0x16, 0x44, 0x66, 0x55, 0x44,
         0x00, 0x00] (uuid_sortsupport (example_platform False))) = 0x550e8400e29b41d4
   \<and> fst (uuid_abbrev_convert (example_platform False)
        [0x55, 0x0e, 0x84, 0x00, 0xe2, 0x9b, 0x41, 0xd5, 0x00, 0x00, 0x00, 0x00, 0x00, 0x00,
         0x00, 0x00] (uuid_sortsupport (example_platform False))) = 0x550e8400e29b41d5
   \<and> ssup_datum_unsigned_cmp 0x550e8400e29b41d4 0x550e8400e29b41d5 = - 1
   \<and> memcmp [0x55, 0x0e, 0x84, 0x00, 0xe2, 0x9b, 0x41, 0xd4, 0xa7, 0x16, 0x44, 0x66, 0x55, 0x44,
             0x00, 0x00]
        [0x55, 0x0e, 0x84, 0x00, 0xe2, 0x9b, 0x41, 0xd5, 0x00, 0x00, 0x00, 0x00, 0x00, 0x00,
         0x00, 0x00] SIZEOF_DATUM = - 1"
proof -
  let ?a = "[0x55, 0x0e, 0x84, 0x00, 0xe2, 0x9b, 0x41, 0xd4, 0xa7, 0x16, 0x44, 0x66, 0x55, 0x44,
             0x00, 0x00 :: 8 word]"
  let ?b = "[0x55, 0x0e, 0x84, 0x00, 0xe2, 0x9b, 0x41, 0xd5, 0x00, 0x00, 0x00, 0x00, 0x00, 0x00,
             0x00, 0x00 :: 8 word]"
  let ?pf = "example_platform False"
  have la: "length ?a = UUID_LEN" and lb: "length ?b = UUID_LEN"
    by (simp_all add: UUID_LEN_def)
  have ka: "fst (uuid_abbrev_convert ?pf ?a (uuid_sortsupport ?pf)) = 0x550e8400e29b41d4"
    by code_simp
  have kb: "fst (uuid_abbrev_convert ?pf ?b (uuid_sortsupport ?pf)) = 0x550e8400e29b41d5"
    by code_simp
  have c: "ssup_datum_unsigned_cmp 0x550e8400e29b41d4 0x550e8400e29b41d5 = - 1"
    by (simp add: ssup_datum_unsigned_cmp_def)
  from uuid_abbrev_convert_order [OF la lb, of ?pf "uuid_sortsupport ?pf" "uuid_sortsupport ?pf"]
  have "memcmp ?a ?b SIZEOF_DATUM = - 1"
    unfolding ka kb c by simp
  with la lb ka kb c show ?thesis by (intro conjI)
qed

subsection \<open>The abort heuristic\<close>

lemma uuid_abbrev_convert_estimating:
  "estimating (snd (uuid_abbrev_convert pf v uss)) = estimating uss"
  by (simp add: uuid_abbrev_convert_def Let_def)

lemma uuid_abbrev_abort_not_estimating:
  "\<not> estimating uss \<Longrightarrow> uuid_abbrev_abort pf memtupcount uss = (False, uss)"
  by (simp add: uuid_abbrev_abort_def)

lemma sort_calls_not_estimating:
  "\<not> estimating uss \<Longrightarrow> True \<notin> set (fst (sort_calls pf uss cs))"
proof (induction cs arbitrary: uss)
  case Nil
  show ?case by simp
next
  case (Cons c cs)
  show ?case
  proof (cases c)
    case (Convert v)
    with Cons.prems Cons.IH [of "snd (uuid_abbrev_convert pf v uss)"] show ?thesis
      by (simp add: uuid_abbrev_convert_estimating)
  next
    case (Abort m)
    with Cons.prems Cons.IH [of uss] show ?thesis
      by (auto simp add: uuid_abbrev_abort_not_estimating split: prod.split)
  qed
qed

text \<open>
  C7.  \<^verbatim>\<open>uuid_abbrev_abort\<close> returns false, and leaves the sort state as it is, whenever the
  buffered row count is below 10000, or fewer than 10000 inputs have been seen, or
  estimating is switched off.  Otherwise, if the estimate exceeds 100000.0, it clears the
  estimating flag and returns false, and every abort check made later in the sort, after
  any further conversions and checks, returns false.  Otherwise it leaves the state as it
  is and returns true exactly when the estimate is below
  \<^verbatim>\<open>input_count / 2000.0 + 0.5\<close>.  The comparisons and the arithmetic are those of
  \<^verbatim>\<open>double\<close>, whatever the platform makes them.
\<close>

theorem uuid_abbrev_abort_cases:
  "(memtupcount < 10000 \<or> input_count uss < 10000 \<or> \<not> estimating uss
      \<longrightarrow> uuid_abbrev_abort pf memtupcount uss = (False, uss))
   \<and> (10000 \<le> memtupcount \<and> 10000 \<le> input_count uss \<and> estimating uss \<and>
        double_less pf (double_literal pf 100000) (estimateHyperLogLog pf (abbr_card uss))
      \<longrightarrow> uuid_abbrev_abort pf memtupcount uss = (False, uss\<lparr>estimating := False\<rparr>) \<and>
          True \<notin> set (fst (sort_calls pf (snd (uuid_abbrev_abort pf memtupcount uss)) cs)))
   \<and> (10000 \<le> memtupcount \<and> 10000 \<le> input_count uss \<and> estimating uss \<and>
        \<not> double_less pf (double_literal pf 100000) (estimateHyperLogLog pf (abbr_card uss))
      \<longrightarrow> uuid_abbrev_abort pf memtupcount uss =
            (double_less pf (estimateHyperLogLog pf (abbr_card uss))
               (double_add pf
                  (double_div pf (double_of_int64 pf (input_count uss)) (double_literal pf 2000))
                  (double_literal pf 0.5)),
             uss))"
proof (intro conjI impI)
  assume "memtupcount < 10000 \<or> input_count uss < 10000 \<or> \<not> estimating uss"
  then show "uuid_abbrev_abort pf memtupcount uss = (False, uss)"
    by (auto simp: uuid_abbrev_abort_def)
next
  assume h: "10000 \<le> memtupcount \<and> 10000 \<le> input_count uss \<and> estimating uss \<and>
        double_less pf (double_literal pf 100000) (estimateHyperLogLog pf (abbr_card uss))"
  then show r: "uuid_abbrev_abort pf memtupcount uss = (False, uss\<lparr>estimating := False\<rparr>)"
    by (simp add: uuid_abbrev_abort_def Let_def)
  show "True \<notin> set (fst (sort_calls pf (snd (uuid_abbrev_abort pf memtupcount uss)) cs))"
    unfolding r by (rule sort_calls_not_estimating) simp
next
  assume "10000 \<le> memtupcount \<and> 10000 \<le> input_count uss \<and> estimating uss \<and>
        \<not> double_less pf (double_literal pf 100000) (estimateHyperLogLog pf (abbr_card uss))"
  then show "uuid_abbrev_abort pf memtupcount uss =
            (double_less pf (estimateHyperLogLog pf (abbr_card uss))
               (double_add pf
                  (double_div pf (double_of_int64 pf (input_count uss)) (double_literal pf 2000))
                  (double_literal pf 0.5)),
             uss)"
    by (simp add: uuid_abbrev_abort_def Let_def)
qed

theorem uuid_abbrev_abort_cases_witness:
  "uuid_abbrev_abort (example_platform False) 9999
      \<lparr>input_count = 20000, estimating = True, abbr_card = 3\<rparr>
     = (False, \<lparr>input_count = 20000, estimating = True, abbr_card = 3\<rparr>)
   \<and> uuid_abbrev_abort (example_platform False) 20000
        \<lparr>input_count = 300000, estimating = True, abbr_card = 150000\<rparr>
     = (False, \<lparr>input_count = 300000, estimating = False, abbr_card = 150000\<rparr>)
   \<and> True \<notin> set (fst (sort_calls (example_platform False)
        (snd (uuid_abbrev_abort (example_platform False) 20000
               \<lparr>input_count = 300000, estimating = True, abbr_card = 150000\<rparr>))
        [Convert (replicate UUID_LEN 0), Abort 30000, Abort 40000]))
   \<and> uuid_abbrev_abort (example_platform False) 20000
        \<lparr>input_count = 20000, estimating = True, abbr_card = 3\<rparr>
     = (True, \<lparr>input_count = 20000, estimating = True, abbr_card = 3\<rparr>)
   \<and> uuid_abbrev_abort (example_platform False) 20000
        \<lparr>input_count = 20000, estimating = True, abbr_card = 11\<rparr>
     = (False, \<lparr>input_count = 20000, estimating = True, abbr_card = 11\<rparr>)"
proof -
  let ?pf = "example_platform False"
  let ?s1 = "\<lparr>input_count = 20000, estimating = True, abbr_card = 3 :: nat\<rparr>"
  let ?s2 = "\<lparr>input_count = 300000, estimating = True, abbr_card = 150000 :: nat\<rparr>"
  let ?s3 = "\<lparr>input_count = 20000, estimating = True, abbr_card = 11 :: nat\<rparr>"
  let ?cs = "[Convert (replicate UUID_LEN 0), Abort 30000, Abort 40000]"
  have a: "uuid_abbrev_abort ?pf 9999 ?s1 = (False, ?s1)"
    using uuid_abbrev_abort_cases [of 9999 ?s1 ?pf, THEN conjunct1] by simp
  have h2: "10000 \<le> (20000 :: int) \<and> 10000 \<le> input_count ?s2 \<and> estimating ?s2 \<and>
      double_less ?pf (double_literal ?pf 100000) (estimateHyperLogLog ?pf (abbr_card ?s2))"
    by (simp add: example_platform_def)
  from uuid_abbrev_abort_cases [of 20000 ?s2 ?pf ?cs, THEN conjunct2, THEN conjunct1, THEN mp,
      OF h2]
  have b: "uuid_abbrev_abort ?pf 20000 ?s2 = (False, ?s2\<lparr>estimating := False\<rparr>)"
    and c: "True \<notin> set (fst (sort_calls ?pf (snd (uuid_abbrev_abort ?pf 20000 ?s2)) ?cs))"
    by blast+
  have h3: "10000 \<le> (20000 :: int) \<and> 10000 \<le> input_count ?s1 \<and> estimating ?s1 \<and>
      \<not> double_less ?pf (double_literal ?pf 100000) (estimateHyperLogLog ?pf (abbr_card ?s1))"
    by (simp add: example_platform_def)
  have d: "uuid_abbrev_abort ?pf 20000 ?s1 = (True, ?s1)"
    using uuid_abbrev_abort_cases [of 20000 ?s1 ?pf, THEN conjunct2, THEN conjunct2, THEN mp,
      OF h3]
    by (simp add: example_platform_def)
  have h4: "10000 \<le> (20000 :: int) \<and> 10000 \<le> input_count ?s3 \<and> estimating ?s3 \<and>
      \<not> double_less ?pf (double_literal ?pf 100000) (estimateHyperLogLog ?pf (abbr_card ?s3))"
    by (simp add: example_platform_def)
  have e: "uuid_abbrev_abort ?pf 20000 ?s3 = (False, ?s3)"
    using uuid_abbrev_abort_cases [of 20000 ?s3 ?pf, THEN conjunct2, THEN conjunct2, THEN mp,
      OF h4]
    by (simp add: example_platform_def)
  from a b c d e show ?thesis by simp
qed

end
